theory Spec2Isabelle
  imports Main
begin

section \<open>The HealthcareDB contract: storage, errors and events\<close>

text \<open>
  The richer of the two contract variants (the one with \<open>Pausable\<close>, the access cache and
  the \<open>revokedAt\<close> field) is embedded here function by function. Solidity value types are
  read as natural numbers: an \<open>address\<close> is a number with \<open>0\<close> for \<open>address(0)\<close>, a
  \<open>bytes32\<close> and a \<open>uint256\<close> are numbers. The contract does no arithmetic on them beyond
  the loop counters, which stay below an array length, so no wrap-around can occur.

  A Solidity \<open>mapping\<close> is a total function whose unwritten keys hold the zero value.
  A transaction that reverts has no effect on storage: every external function returns
  either an error (\<open>Inl\<close>) or the storage after the call (\<open>Inr\<close>). The modifiers of
  a function are its first checks, in the order in which the function lists them. No
  function calls out of the contract, so \<open>nonReentrant\<close> never fires and has no
  counterpart here. The emitted events are kept as a log in the state.

  The contract inherits \<open>AccessControl\<close>, \<open>ReentrancyGuard\<close> and \<open>Pausable\<close> of
  OpenZeppelin 5. What it uses of them (\<open>onlyRole\<close>, \<open>hasRole\<close>, \<open>_grantRole\<close>,
  \<open>whenNotPaused\<close>, \<open>_pause\<close>, \<open>_unpause\<close>) and the external functions it inherits
  from \<open>AccessControl\<close> (\<open>grantRole\<close>, \<open>revokeRole\<close>, \<open>renounceRole\<close>) follow the
  library.
\<close>

type_synonym address = nat
type_synonym bytes32 = nat
type_synonym uint256 = nat

text \<open>
  A role is a 32-byte identifier: \<open>0x00\<close> for the default admin role, the two
  constants of the contract, or any other value.
\<close>

datatype role = DEFAULT_ADMIN_ROLE | ORGANIZATION_ROLE | ADMIN_ROLE | Other_role bytes32

definition MAX_STRING_LENGTH :: nat where
  "MAX_STRING_LENGTH = 256"

record PatientRecord =
  recordId :: bytes32
  patientAddress :: address
  createdBy :: address
  timestamp :: uint256
  lastUpdated :: uint256
  encryptedDataHash :: string
  dataLocation :: string
  isActive :: bool

record AccessGrant =
  organization :: address
  grantedAt :: uint256
  revokedAt :: uint256
  isRevoked :: bool

datatype event =
    RecordCreated bytes32 address address uint256 string string
  | AccessGranted bytes32 address address uint256
  | AccessRevoked bytes32 address address uint256
  | RecordUpdated bytes32 address uint256 string string
  | OrganizationRegistered address address
  | RecordDeactivated bytes32 address uint256
  | RoleGranted role address address
  | RoleRevoked role address address
  | Paused address
  | Unpaused address

text \<open>
  The ways a call reverts: the custom errors of the inherited \<open>AccessControl\<close> and
  \<open>Pausable\<close> (\<open>onlyRole\<close>, \<open>renounceRole\<close>, \<open>whenNotPaused\<close>, \<open>whenPaused\<close>), a
  failed \<open>require\<close> with its message, and an out-of-range array write.
\<close>

datatype error =
    AccessControlUnauthorizedAccount address role
  | AccessControlBadConfirmation
  | EnforcedPause
  | ExpectedPause
  | Revert string
  | Panic_index

record state =
  roles :: "role \<Rightarrow> address \<Rightarrow> bool"
  paused :: bool
  records :: "bytes32 \<Rightarrow> PatientRecord"
  recordAccess :: "bytes32 \<Rightarrow> AccessGrant list"
  patientRecords :: "address \<Rightarrow> bytes32 list"
  organizationRecords :: "address \<Rightarrow> bytes32 list"
  hasAccessCache :: "bytes32 \<Rightarrow> address \<Rightarrow> bool"
  allRecordIds :: "bytes32 list"
  registeredOrganizations :: "address list"
  log :: "event list"

text \<open>What a call sees of its transaction and block.\<close>

record env =
  msg_sender :: address
  block_timestamp :: uint256
  block_prevrandao :: uint256
  block_number :: uint256

text \<open>
  \<open>keccak256(abi.encodePacked(patientAddress, msg.sender, block.timestamp,
  block.prevrandao, block.number, _allRecordIds.length))\<close>: the six values have fixed
  widths, so the packed encoding determines them and the hash is a function of the tuple.
  The hash function itself is a parameter of the model.
\<close>

type_synonym preimage = "address \<times> address \<times> uint256 \<times> uint256 \<times> uint256 \<times> uint256"
type_synonym keccak = "preimage \<Rightarrow> bytes32"

definition zero_record :: PatientRecord where
  "zero_record = \<lparr> recordId = 0, patientAddress = 0, createdBy = 0, timestamp = 0,
     lastUpdated = 0, encryptedDataHash = [], dataLocation = [], isActive = False \<rparr>"

definition hasRole :: "state \<Rightarrow> role \<Rightarrow> address \<Rightarrow> bool" where
  "hasRole s r a = roles s r a"

text \<open>\<open>_grantRole\<close> of \<open>AccessControl\<close>: sets the flag and logs, unless already set.\<close>

definition grantRole_internal :: "state \<Rightarrow> role \<Rightarrow> address \<Rightarrow> address \<Rightarrow> state" where
  "grantRole_internal s r account sender =
     (if \<not> hasRole s r account
      then s\<lparr> roles := (roles s)(r := (roles s r)(account := True)),
              log := log s @ [RoleGranted r account sender] \<rparr>
      else s)"

text \<open>\<open>_revokeRole\<close> of \<open>AccessControl\<close>: clears the flag and logs, if it was set.\<close>

definition revokeRole_internal :: "state \<Rightarrow> role \<Rightarrow> address \<Rightarrow> address \<Rightarrow> state" where
  "revokeRole_internal s r account sender =
     (if hasRole s r account
      then s\<lparr> roles := (roles s)(r := (roles s r)(account := False)),
              log := log s @ [RoleRevoked r account sender] \<rparr>
      else s)"

text \<open>
  The admin role of a role. The contract never calls \<open>_setRoleAdmin\<close>, so it is the
  default admin role for every role.
\<close>

definition getRoleAdmin :: "role \<Rightarrow> role" where
  "getRoleAdmin r = DEFAULT_ADMIN_ROLE"

definition blank :: state where
  "blank = \<lparr> roles = (\<lambda>_ _. False), paused = False, records = (\<lambda>_. zero_record),
     recordAccess = (\<lambda>_. []), patientRecords = (\<lambda>_. []), organizationRecords = (\<lambda>_. []),
     hasAccessCache = (\<lambda>_ _. False), allRecordIds = [], registeredOrganizations = [],
     log = [] \<rparr>"

definition constructor :: "address \<Rightarrow> state" where
  "constructor deployer =
     grantRole_internal (grantRole_internal blank DEFAULT_ADMIN_ROLE deployer deployer)
       ADMIN_ROLE deployer deployer"

section \<open>Role administration inherited from AccessControl\<close>

text \<open>
  The three external functions that the contract inherits unchanged. None of them
  carries \<open>whenNotPaused\<close>.
\<close>

definition grantRole :: "state \<Rightarrow> env \<Rightarrow> role \<Rightarrow> address \<Rightarrow> error + state" where
  "grantRole s e r account =
     (if \<not> hasRole s (getRoleAdmin r) (msg_sender e)
        then Inl (AccessControlUnauthorizedAccount (msg_sender e) (getRoleAdmin r))
      else Inr (grantRole_internal s r account (msg_sender e)))"

definition revokeRole :: "state \<Rightarrow> env \<Rightarrow> role \<Rightarrow> address \<Rightarrow> error + state" where
  "revokeRole s e r account =
     (if \<not> hasRole s (getRoleAdmin r) (msg_sender e)
        then Inl (AccessControlUnauthorizedAccount (msg_sender e) (getRoleAdmin r))
      else Inr (revokeRole_internal s r account (msg_sender e)))"

definition renounceRole :: "state \<Rightarrow> env \<Rightarrow> role \<Rightarrow> address \<Rightarrow> error + state" where
  "renounceRole s e r callerConfirmation =
     (if callerConfirmation \<noteq> msg_sender e then Inl AccessControlBadConfirmation
      else Inr (revokeRole_internal s r callerConfirmation (msg_sender e)))"

section \<open>Organization management\<close>

definition registerOrganization :: "state \<Rightarrow> env \<Rightarrow> address \<Rightarrow> error + state" where
  "registerOrganization s e org =
     (if \<not> hasRole s ADMIN_ROLE (msg_sender e)
        then Inl (AccessControlUnauthorizedAccount (msg_sender e) ADMIN_ROLE)
      else if org = 0 then Inl (Revert ''HealthcareDB: Invalid address'')
      else if paused s then Inl EnforcedPause
      else if hasRole s ORGANIZATION_ROLE org
        then Inl (Revert ''HealthcareDB: Organization already registered'')
      else
        (let s1 = grantRole_internal s ORGANIZATION_ROLE org (msg_sender e)
         in Inr (s1\<lparr> registeredOrganizations := registeredOrganizations s1 @ [org],
                     log := log s1 @ [OrganizationRegistered org (msg_sender e)] \<rparr>)))"

text \<open>The loop of \<open>batchRegisterOrganizations\<close>, one iteration per array element.\<close>

fun batch_loop :: "state \<Rightarrow> address \<Rightarrow> address list \<Rightarrow> state" where
  "batch_loop s sender [] = s"
| "batch_loop s sender (org # orgs) =
     (if org \<noteq> 0 \<and> \<not> hasRole s ORGANIZATION_ROLE org
      then
        (let s1 = grantRole_internal s ORGANIZATION_ROLE org sender
         in batch_loop
              (s1\<lparr> registeredOrganizations := registeredOrganizations s1 @ [org],
                   log := log s1 @ [OrganizationRegistered org sender] \<rparr>) sender orgs)
      else batch_loop s sender orgs)"

definition batchRegisterOrganizations :: "state \<Rightarrow> env \<Rightarrow> address list \<Rightarrow> error + state" where
  "batchRegisterOrganizations s e orgs =
     (if \<not> hasRole s ADMIN_ROLE (msg_sender e)
        then Inl (AccessControlUnauthorizedAccount (msg_sender e) ADMIN_ROLE)
      else if paused s then Inl EnforcedPause
      else if \<not> length orgs > 0 then Inl (Revert ''HealthcareDB: Empty array'')
      else if \<not> length orgs \<le> 50 then Inl (Revert ''HealthcareDB: Too many organizations'')
      else Inr (batch_loop s (msg_sender e) orgs))"

section \<open>The access check\<close>

text \<open>The loop of \<open>_hasAccess\<close>: the first unrevoked entry of the organization ends it.\<close>

fun scan_access :: "address \<Rightarrow> AccessGrant list \<Rightarrow> bool" where
  "scan_access org [] = False"
| "scan_access org (g # gs) =
     (if organization g = org \<and> \<not> isRevoked g then True else scan_access org gs)"

definition internal_hasAccess :: "state \<Rightarrow> bytes32 \<Rightarrow> address \<Rightarrow> bool" where
  "internal_hasAccess s rid org =
     (if \<not> isActive (records s rid) then False
      else if \<not> hasAccessCache s rid org then False
      else scan_access org (recordAccess s rid))"

definition hasAccess :: "state \<Rightarrow> bytes32 \<Rightarrow> address \<Rightarrow> bool" where
  "hasAccess s rid org = internal_hasAccess s rid org"

text \<open>
  The check of the simpler contract variant, which has no cache: record activity, then
  the scan of the grant list. It is read here on the storage of the richer contract.
\<close>

definition hasAccess_uncached :: "state \<Rightarrow> bytes32 \<Rightarrow> address \<Rightarrow> bool" where
  "hasAccess_uncached s rid org =
     (if \<not> isActive (records s rid) then False
      else scan_access org (recordAccess s rid))"

section \<open>Record management\<close>

definition preimage_of :: "state \<Rightarrow> env \<Rightarrow> address \<Rightarrow> preimage" where
  "preimage_of s e patient =
     (patient, msg_sender e, block_timestamp e, block_prevrandao e, block_number e,
      length (allRecordIds s))"

definition createRecord ::
  "keccak \<Rightarrow> state \<Rightarrow> env \<Rightarrow> address \<Rightarrow> string \<Rightarrow> string \<Rightarrow> error + (bytes32 \<times> state)" where
  "createRecord H s e patient dataHash location =
     (if \<not> hasRole s ORGANIZATION_ROLE (msg_sender e)
        then Inl (AccessControlUnauthorizedAccount (msg_sender e) ORGANIZATION_ROLE)
      else if paused s then Inl EnforcedPause
      else if patient = 0 then Inl (Revert ''HealthcareDB: Invalid address'')
      else if \<not> length dataHash > 0 then Inl (Revert ''HealthcareDB: Empty string'')
      else if \<not> length dataHash \<le> MAX_STRING_LENGTH
        then Inl (Revert ''HealthcareDB: String too long'')
      else if \<not> length location > 0 then Inl (Revert ''HealthcareDB: Empty string'')
      else if \<not> length location \<le> MAX_STRING_LENGTH
        then Inl (Revert ''HealthcareDB: String too long'')
      else
        (let rid = H (preimage_of s e patient)
         in if isActive (records s rid) then Inl (Revert ''HealthcareDB: Record ID collision'')
            else Inr (rid,
              s\<lparr> records := (records s)(rid :=
                    \<lparr> recordId = rid, patientAddress = patient, createdBy = msg_sender e,
                      timestamp = block_timestamp e, lastUpdated = block_timestamp e,
                      encryptedDataHash = dataHash, dataLocation = location,
                      isActive = True \<rparr>),
                 recordAccess := (recordAccess s)(rid := recordAccess s rid @
                    [\<lparr> organization = msg_sender e, grantedAt = block_timestamp e,
                       revokedAt = 0, isRevoked = False \<rparr>]),
                 hasAccessCache := (hasAccessCache s)(rid :=
                    (hasAccessCache s rid)(msg_sender e := True)),
                 patientRecords := (patientRecords s)(patient :=
                    patientRecords s patient @ [rid]),
                 organizationRecords := (organizationRecords s)(msg_sender e :=
                    organizationRecords s (msg_sender e) @ [rid]),
                 allRecordIds := allRecordIds s @ [rid],
                 log := log s @
                    [RecordCreated rid patient (msg_sender e) (block_timestamp e)
                       dataHash location] \<rparr>)))"

definition grantAccess :: "state \<Rightarrow> env \<Rightarrow> bytes32 \<Rightarrow> address \<Rightarrow> error + state" where
  "grantAccess s e rid org =
     (if \<not> hasRole s ORGANIZATION_ROLE (msg_sender e)
        then Inl (AccessControlUnauthorizedAccount (msg_sender e) ORGANIZATION_ROLE)
      else if paused s then Inl EnforcedPause
      else if \<not> isActive (records s rid)
        then Inl (Revert ''HealthcareDB: Record does not exist or is inactive'')
      else if org = 0 then Inl (Revert ''HealthcareDB: Invalid address'')
      else if \<not> hasRole s ORGANIZATION_ROLE org
        then Inl (Revert ''HealthcareDB: Invalid organization'')
      else if \<not> internal_hasAccess s rid (msg_sender e)
        then Inl (Revert ''HealthcareDB: You don't have access to this record'')
      else if internal_hasAccess s rid org
        then Inl (Revert ''HealthcareDB: Access already granted'')
      else Inr
        (s\<lparr> recordAccess := (recordAccess s)(rid := recordAccess s rid @
               [\<lparr> organization = org, grantedAt = block_timestamp e,
                  revokedAt = 0, isRevoked = False \<rparr>]),
            hasAccessCache := (hasAccessCache s)(rid := (hasAccessCache s rid)(org := True)),
            organizationRecords := (organizationRecords s)(org :=
               organizationRecords s org @ [rid]),
            log := log s @ [AccessGranted rid org (msg_sender e) (block_timestamp e)] \<rparr>))"

text \<open>
  The loop of \<open>revokeAccess\<close>: the first unrevoked entry of the organization is marked
  and the loop returns; \<open>None\<close> when the loop runs to the end of the array.
\<close>

fun revoke_first :: "address \<Rightarrow> uint256 \<Rightarrow> AccessGrant list \<Rightarrow> AccessGrant list option" where
  "revoke_first org now [] = None"
| "revoke_first org now (g # gs) =
     (if organization g = org \<and> \<not> isRevoked g
      then Some (g\<lparr> isRevoked := True, revokedAt := now \<rparr> # gs)
      else map_option ((#) g) (revoke_first org now gs))"

definition revokeAccess :: "state \<Rightarrow> env \<Rightarrow> bytes32 \<Rightarrow> address \<Rightarrow> error + state" where
  "revokeAccess s e rid org =
     (if \<not> hasRole s ORGANIZATION_ROLE (msg_sender e)
        then Inl (AccessControlUnauthorizedAccount (msg_sender e) ORGANIZATION_ROLE)
      else if paused s then Inl EnforcedPause
      else if \<not> isActive (records s rid)
        then Inl (Revert ''HealthcareDB: Record does not exist or is inactive'')
      else if org = 0 then Inl (Revert ''HealthcareDB: Invalid address'')
      else if \<not> internal_hasAccess s rid (msg_sender e)
        then Inl (Revert ''HealthcareDB: You don't have access to this record'')
      else if \<not> org \<noteq> msg_sender e
        then Inl (Revert ''HealthcareDB: Cannot revoke own access'')
      else if \<not> internal_hasAccess s rid org
        then Inl (Revert ''HealthcareDB: Organization does not have access'')
      else
        (case revoke_first org (block_timestamp e) (recordAccess s rid) of
           Some gs' \<Rightarrow> Inr
             (s\<lparr> recordAccess := (recordAccess s)(rid := gs'),
                 hasAccessCache := (hasAccessCache s)(rid := (hasAccessCache s rid)(org := False)),
                 log := log s @ [AccessRevoked rid org (msg_sender e) (block_timestamp e)] \<rparr>)
         | None \<Rightarrow> Inl (Revert ''HealthcareDB: Access not found'')))"

definition updateRecord :: "state \<Rightarrow> env \<Rightarrow> bytes32 \<Rightarrow> string \<Rightarrow> string \<Rightarrow> error + state" where
  "updateRecord s e rid dataHash location =
     (if \<not> hasRole s ORGANIZATION_ROLE (msg_sender e)
        then Inl (AccessControlUnauthorizedAccount (msg_sender e) ORGANIZATION_ROLE)
      else if paused s then Inl EnforcedPause
      else if \<not> isActive (records s rid)
        then Inl (Revert ''HealthcareDB: Record does not exist or is inactive'')
      else if \<not> length dataHash > 0 then Inl (Revert ''HealthcareDB: Empty string'')
      else if \<not> length dataHash \<le> MAX_STRING_LENGTH
        then Inl (Revert ''HealthcareDB: String too long'')
      else if \<not> length location > 0 then Inl (Revert ''HealthcareDB: Empty string'')
      else if \<not> length location \<le> MAX_STRING_LENGTH
        then Inl (Revert ''HealthcareDB: String too long'')
      else if \<not> internal_hasAccess s rid (msg_sender e)
        then Inl (Revert ''HealthcareDB: You don't have access to this record'')
      else Inr
        (s\<lparr> records := (records s)(rid := (records s rid)
               \<lparr> encryptedDataHash := dataHash, dataLocation := location,
                 lastUpdated := block_timestamp e \<rparr>),
            log := log s @
               [RecordUpdated rid (msg_sender e) (block_timestamp e) dataHash location] \<rparr>))"

definition deactivateRecord :: "state \<Rightarrow> env \<Rightarrow> bytes32 \<Rightarrow> error + state" where
  "deactivateRecord s e rid =
     (if paused s then Inl EnforcedPause
      else if \<not> isActive (records s rid)
        then Inl (Revert ''HealthcareDB: Record does not exist or is inactive'')
      else if \<not> (createdBy (records s rid) = msg_sender e \<or> hasRole s ADMIN_ROLE (msg_sender e))
        then Inl (Revert ''HealthcareDB: Only creator or admin can deactivate'')
      else Inr
        (s\<lparr> records := (records s)(rid := (records s rid)\<lparr> isActive := False \<rparr>),
            log := log s @ [RecordDeactivated rid (msg_sender e) (block_timestamp e)] \<rparr>))"

section \<open>View functions\<close>

definition getRecord :: "state \<Rightarrow> bytes32 \<Rightarrow> PatientRecord" where
  "getRecord s rid = records s rid"

text \<open>
  \<open>getRecordAccess\<close> runs two loops over the grant list: the first counts the unrevoked
  entries, the second writes their organizations into a fresh array of that length.
\<close>

fun count_active :: "AccessGrant list \<Rightarrow> nat \<Rightarrow> nat" where
  "count_active [] activeCount = activeCount"
| "count_active (g # gs) activeCount =
     count_active gs (if \<not> isRevoked g then activeCount + 1 else activeCount)"

fun fill_active :: "AccessGrant list \<Rightarrow> address list \<Rightarrow> nat \<Rightarrow> error + address list" where
  "fill_active [] organizations index = Inr organizations"
| "fill_active (g # gs) organizations index =
     (if \<not> isRevoked g
      then (if index < length organizations
            then fill_active gs (organizations[index := organization g]) (index + 1)
            else Inl Panic_index)
      else fill_active gs organizations index)"

definition getRecordAccess :: "state \<Rightarrow> bytes32 \<Rightarrow> error + address list" where
  "getRecordAccess s rid =
     (let activeCount = count_active (recordAccess s rid) 0
      in fill_active (recordAccess s rid) (replicate activeCount 0) 0)"

definition getPatientRecords :: "state \<Rightarrow> address \<Rightarrow> bytes32 list" where
  "getPatientRecords s patient = patientRecords s patient"

definition getOrganizationRecords :: "state \<Rightarrow> address \<Rightarrow> bytes32 list" where
  "getOrganizationRecords s org = organizationRecords s org"

definition getPatientRecordCount :: "state \<Rightarrow> address \<Rightarrow> nat" where
  "getPatientRecordCount s patient = length (patientRecords s patient)"

definition getTotalRecordCount :: "state \<Rightarrow> nat" where
  "getTotalRecordCount s = length (allRecordIds s)"

definition getOrganizationCount :: "state \<Rightarrow> nat" where
  "getOrganizationCount s = length (registeredOrganizations s)"

definition getAllOrganizations :: "state \<Rightarrow> address list" where
  "getAllOrganizations s = registeredOrganizations s"

section \<open>Admin functions\<close>

definition pause :: "state \<Rightarrow> env \<Rightarrow> error + state" where
  "pause s e =
     (if \<not> hasRole s ADMIN_ROLE (msg_sender e)
        then Inl (AccessControlUnauthorizedAccount (msg_sender e) ADMIN_ROLE)
      else if paused s then Inl EnforcedPause
      else Inr (s\<lparr> paused := True, log := log s @ [Paused (msg_sender e)] \<rparr>))"

definition unpause :: "state \<Rightarrow> env \<Rightarrow> error + state" where
  "unpause s e =
     (if \<not> hasRole s ADMIN_ROLE (msg_sender e)
        then Inl (AccessControlUnauthorizedAccount (msg_sender e) ADMIN_ROLE)
      else if \<not> paused s then Inl ExpectedPause
      else Inr (s\<lparr> paused := False, log := log s @ [Unpaused (msg_sender e)] \<rparr>))"

section \<open>Transactions and runs\<close>

text \<open>
  The state-changing external functions as one datatype of calls: the nine that the
  contract declares and the three of role administration that it inherits. A
  transaction is a call with its environment; a reverted transaction leaves the storage
  as it was.
\<close>

datatype call =
    RegisterOrganization address
  | BatchRegisterOrganizations "address list"
  | CreateRecord address string string
  | GrantAccess bytes32 address
  | RevokeAccess bytes32 address
  | UpdateRecord bytes32 string string
  | DeactivateRecord bytes32
  | Pause
  | Unpause
  | GrantRole role address
  | RevokeRole role address
  | RenounceRole role address

fun exec :: "keccak \<Rightarrow> state \<Rightarrow> env \<Rightarrow> call \<Rightarrow> error + state" where
  "exec H s e (RegisterOrganization org) = registerOrganization s e org"
| "exec H s e (BatchRegisterOrganizations orgs) = batchRegisterOrganizations s e orgs"
| "exec H s e (CreateRecord patient dataHash location) =
     map_sum id snd (createRecord H s e patient dataHash location)"
| "exec H s e (GrantAccess rid org) = grantAccess s e rid org"
| "exec H s e (RevokeAccess rid org) = revokeAccess s e rid org"
| "exec H s e (UpdateRecord rid dataHash location) = updateRecord s e rid dataHash location"
| "exec H s e (DeactivateRecord rid) = deactivateRecord s e rid"
| "exec H s e Pause = pause s e"
| "exec H s e Unpause = unpause s e"
| "exec H s e (GrantRole r account) = grantRole s e r account"
| "exec H s e (RevokeRole r account) = revokeRole s e r account"
| "exec H s e (RenounceRole r callerConfirmation) = renounceRole s e r callerConfirmation"

text \<open>
  The calls of the functions that carry \<open>whenNotPaused\<close>: the seven write operations,
  and \<open>pause\<close> through \<open>_pause\<close>.
\<close>

fun pausable :: "call \<Rightarrow> bool" where
  "pausable (RegisterOrganization org) = True"
| "pausable (BatchRegisterOrganizations orgs) = True"
| "pausable (CreateRecord patient dataHash location) = True"
| "pausable (GrantAccess rid org) = True"
| "pausable (RevokeAccess rid org) = True"
| "pausable (UpdateRecord rid dataHash location) = True"
| "pausable (DeactivateRecord rid) = True"
| "pausable Pause = True"
| "pausable Unpause = False"
| "pausable (GrantRole r account) = False"
| "pausable (RevokeRole r account) = False"
| "pausable (RenounceRole r callerConfirmation) = False"

definition step :: "keccak \<Rightarrow> state \<Rightarrow> env \<times> call \<Rightarrow> state" where
  "step H s tx = (case exec H s (fst tx) (snd tx) of Inl err \<Rightarrow> s | Inr s' \<Rightarrow> s')"

fun run :: "keccak \<Rightarrow> state \<Rightarrow> (env \<times> call) list \<Rightarrow> state" where
  "run H s [] = s"
| "run H s (tx # txs) = run H (step H s tx) txs"

text \<open>
  The tuples hashed by the successful \<open>createRecord\<close> calls of a run, and the record ids
  these calls returned, both in the order of the calls.
\<close>

fun hashed_by :: "keccak \<Rightarrow> state \<Rightarrow> env \<times> call \<Rightarrow> preimage list" where
  "hashed_by H s (e, CreateRecord patient dataHash location) =
     (case createRecord H s e patient dataHash location of
        Inl err \<Rightarrow> [] | Inr res \<Rightarrow> [preimage_of s e patient])"
| "hashed_by H s (e, c) = []"

fun hashed :: "keccak \<Rightarrow> state \<Rightarrow> (env \<times> call) list \<Rightarrow> preimage list" where
  "hashed H s [] = []"
| "hashed H s (tx # txs) = hashed_by H s tx @ hashed H (step H s tx) txs"

fun created_by :: "keccak \<Rightarrow> state \<Rightarrow> env \<times> call \<Rightarrow> bytes32 list" where
  "created_by H s (e, CreateRecord patient dataHash location) =
     (case createRecord H s e patient dataHash location of
        Inl err \<Rightarrow> [] | Inr res \<Rightarrow> [fst res])"
| "created_by H s (e, c) = []"

fun created :: "keccak \<Rightarrow> state \<Rightarrow> (env \<times> call) list \<Rightarrow> bytes32 list" where
  "created H s [] = []"
| "created H s (tx # txs) = created_by H s tx @ created H (step H s tx) txs"

section \<open>Notions used in the statements\<close>

text \<open>
  The most recent grant entry of an organization in a record's grant list: the last
  entry of the list that names the organization, if there is one.
\<close>

definition entries_of :: "address \<Rightarrow> AccessGrant list \<Rightarrow> AccessGrant list" where
  "entries_of org gs = filter (\<lambda>g. organization g = org) gs"

definition latest_grant :: "AccessGrant list \<Rightarrow> address \<Rightarrow> AccessGrant option" where
  "latest_grant gs org =
     (case entries_of org gs of [] \<Rightarrow> None | g # gs' \<Rightarrow> Some (last (g # gs')))"

text \<open>The unrevoked entries of an organization in a grant list.\<close>

definition active_entries :: "address \<Rightarrow> AccessGrant list \<Rightarrow> AccessGrant list" where
  "active_entries org gs = filter (\<lambda>g. organization g = org \<and> \<not> isRevoked g) gs"

text \<open>The sequence number in a hashed tuple: its last component.\<close>

definition seq_no :: "preimage \<Rightarrow> nat" where
  "seq_no x = snd (snd (snd (snd (snd x))))"

text \<open>
  A stand-in for the hash on the small example runs below: the sequence number plus
  one. It never maps two tuples of one run to the same id, since the sequence number
  grows with every creation.
\<close>

definition example_hash :: keccak where
  "example_hash x = Suc (seq_no x)"

text \<open>
  A transaction is fresh when the id it creates, if any, was not issued before; the
  invariants below are those of the runs whose creations are all fresh.
\<close>

definition fresh :: "keccak \<Rightarrow> state \<Rightarrow> env \<times> call \<Rightarrow> bool" where
  "fresh H s tx \<longleftrightarrow> (\<forall>r\<in>set (created_by H s tx). r \<notin> set (allRecordIds s))"

fun fresh_run :: "keccak \<Rightarrow> state \<Rightarrow> (env \<times> call) list \<Rightarrow> bool" where
  "fresh_run H s [] = True"
| "fresh_run H s (tx # txs) = (fresh H s tx \<and> fresh_run H (step H s tx) txs)"

text \<open>Every id that storage mentions is in the global id list.\<close>

definition inv_index :: "state \<Rightarrow> bool" where
  "inv_index s \<longleftrightarrow>
     (\<forall>r. isActive (records s r) \<longrightarrow> r \<in> set (allRecordIds s)) \<and>
     (\<forall>r. recordAccess s r \<noteq> [] \<longrightarrow> r \<in> set (allRecordIds s)) \<and>
     (\<forall>r org. hasAccessCache s r org \<longrightarrow> r \<in> set (allRecordIds s))"

text \<open>
  All entries of an organization but its most recent one are revoked, and the cache
  says what the scan of the list says.
\<close>

definition inv_grants :: "state \<Rightarrow> bool" where
  "inv_grants s \<longleftrightarrow>
     (\<forall>r org. (\<forall>g\<in>set (butlast (entries_of org (recordAccess s r))). isRevoked g)
        \<and> (hasAccessCache s r org \<longleftrightarrow> scan_access org (recordAccess s r)))"

text \<open>
  A call that is none of the five record operations changes roles, pause flag,
  organization list and log only.
\<close>

definition same_ledger :: "state \<Rightarrow> state \<Rightarrow> bool" where
  "same_ledger s s' \<longleftrightarrow>
     records s' = records s \<and> recordAccess s' = recordAccess s \<and>
     patientRecords s' = patientRecords s \<and> organizationRecords s' = organizationRecords s \<and>
     hasAccessCache s' = hasAccessCache s \<and> allRecordIds s' = allRecordIds s"

text \<open>
  Small runs for the examples. The deployer is account 1; it registers the organizations
  2 and 3; organization 2 creates two records for patient 9 in one block (the stand-in
  hash gives them the ids 1 and 2), grants organization 3 access to record 1, revokes it
  and grants it again.
\<close>

definition mk_env :: "address \<Rightarrow> uint256 \<Rightarrow> env" where
  "mk_env a t = \<lparr> msg_sender = a, block_timestamp = t, block_prevrandao = 7, block_number = 3 \<rparr>"

definition example_setup :: "(env \<times> call) list" where
  "example_setup =
     [(mk_env 1 100, RegisterOrganization 2),
      (mk_env 1 100, RegisterOrganization 3)]"

definition example_granted :: "(env \<times> call) list" where
  "example_granted = example_setup @
     [(mk_env 2 101, CreateRecord 9 ''H1'' ''ipfs://L1''),
      (mk_env 2 101, CreateRecord 9 ''H1'' ''ipfs://L1''),
      (mk_env 2 102, GrantAccess 1 3)]"

definition example_txs :: "(env \<times> call) list" where
  "example_txs = example_granted @
     [(mk_env 2 103, RevokeAccess 1 3),
      (mk_env 2 104, GrantAccess 1 3)]"

text \<open>After that run: record 2 is deactivated and a third record is created.\<close>

definition example_later :: "(env \<times> call) list" where
  "example_later = [(mk_env 2 106, CreateRecord 9 ''H3'' ''ipfs://L3'')]"

text \<open>One organization, one record, then its deactivation by the creator.\<close>

definition example_created :: "(env \<times> call) list" where
  "example_created =
     [(mk_env 1 100, RegisterOrganization 2),
      (mk_env 2 101, CreateRecord 9 ''H1'' ''ipfs://L1'')]"

definition example_deactivated :: "(env \<times> call) list" where
  "example_deactivated = example_created @ [(mk_env 2 102, DeactivateRecord 1)]"

text \<open>
  A hash with collisions, and a run on which it collides: organization 2 creates a
  record, shares it with organization 3 and deactivates it; its next creation hashes
  to the same id.
\<close>

definition colliding_hash :: keccak where
  "colliding_hash x = 1"

definition example_collision :: "(env \<times> call) list" where
  "example_collision = example_setup @
     [(mk_env 2 101, CreateRecord 9 ''H1'' ''ipfs://L1''),
      (mk_env 2 102, GrantAccess 1 3),
      (mk_env 2 103, DeactivateRecord 1),
      (mk_env 2 104, CreateRecord 9 ''H4'' ''ipfs://L4'')]"

text \<open>
  The deployer, who holds the default admin role, takes the organization role from
  organization 3 after it was granted access to record 1.
\<close>

definition example_role_removed :: "(env \<times> call) list" where
  "example_role_removed = example_granted @ [(mk_env 1 103, RevokeRole ORGANIZATION_ROLE 3)]"

text \<open>The deployer pauses the contract after the registrations.\<close>

definition example_paused :: "(env \<times> call) list" where
  "example_paused = example_setup @ [(mk_env 1 105, Pause)]"

section \<open>What a successful call has checked and written\<close>

lemma scan_access_iff:
  "scan_access org gs \<longleftrightarrow> (\<exists>g\<in>set gs. organization g = org \<and> \<not> isRevoked g)"
  by (induction gs) auto

lemma createRecord_InrD:
  assumes "createRecord H s e p h l = Inr (rid, s')"
  shows "rid = H (preimage_of s e p)"
    and "hasRole s ORGANIZATION_ROLE (msg_sender e)" and "\<not> paused s" and "p \<noteq> 0"
    and "\<not> isActive (records s rid)"
    and "s' = s\<lparr> records := (records s)(rid :=
                    \<lparr> recordId = rid, patientAddress = p, createdBy = msg_sender e,
                      timestamp = block_timestamp e, lastUpdated = block_timestamp e,
                      encryptedDataHash = h, dataLocation = l,
                      isActive = True \<rparr>),
                 recordAccess := (recordAccess s)(rid := recordAccess s rid @
                    [\<lparr> organization = msg_sender e, grantedAt = block_timestamp e,
                       revokedAt = 0, isRevoked = False \<rparr>]),
                 hasAccessCache := (hasAccessCache s)(rid :=
                    (hasAccessCache s rid)(msg_sender e := True)),
                 patientRecords := (patientRecords s)(p :=
                    patientRecords s p @ [rid]),
                 organizationRecords := (organizationRecords s)(msg_sender e :=
                    organizationRecords s (msg_sender e) @ [rid]),
                 allRecordIds := allRecordIds s @ [rid],
                 log := log s @
                    [RecordCreated rid p (msg_sender e) (block_timestamp e) h l] \<rparr>"
  using assms by (auto simp: createRecord_def Let_def split: if_splits)

lemma grantAccess_InrD:
  assumes "grantAccess s e rid org = Inr s'"
  shows "hasRole s ORGANIZATION_ROLE (msg_sender e)" and "\<not> paused s"
    and "isActive (records s rid)" and "org \<noteq> 0" and "hasRole s ORGANIZATION_ROLE org"
    and "internal_hasAccess s rid (msg_sender e)" and "\<not> internal_hasAccess s rid org"
    and "s' = s\<lparr> recordAccess := (recordAccess s)(rid := recordAccess s rid @
               [\<lparr> organization = org, grantedAt = block_timestamp e,
                  revokedAt = 0, isRevoked = False \<rparr>]),
            hasAccessCache := (hasAccessCache s)(rid := (hasAccessCache s rid)(org := True)),
            organizationRecords := (organizationRecords s)(org :=
               organizationRecords s org @ [rid]),
            log := log s @ [AccessGranted rid org (msg_sender e) (block_timestamp e)] \<rparr>"
  using assms by (auto simp: grantAccess_def split: if_splits)

lemma revokeAccess_InrD:
  assumes "revokeAccess s e rid org = Inr s'"
  shows "hasRole s ORGANIZATION_ROLE (msg_sender e)" and "\<not> paused s"
    and "isActive (records s rid)" and "org \<noteq> 0"
    and "internal_hasAccess s rid (msg_sender e)" and "org \<noteq> msg_sender e"
    and "internal_hasAccess s rid org"
    and "\<exists>gs'. revoke_first org (block_timestamp e) (recordAccess s rid) = Some gs' \<and>
          s' = s\<lparr> recordAccess := (recordAccess s)(rid := gs'),
                 hasAccessCache := (hasAccessCache s)(rid := (hasAccessCache s rid)(org := False)),
                 log := log s @ [AccessRevoked rid org (msg_sender e) (block_timestamp e)] \<rparr>"
  using assms by (auto simp: revokeAccess_def split: if_splits option.splits)

lemma updateRecord_InrD:
  assumes "updateRecord s e rid h l = Inr s'"
  shows "hasRole s ORGANIZATION_ROLE (msg_sender e)" and "\<not> paused s"
    and "isActive (records s rid)" and "internal_hasAccess s rid (msg_sender e)"
    and "s' = s\<lparr> records := (records s)(rid := (records s rid)
               \<lparr> encryptedDataHash := h, dataLocation := l,
                 lastUpdated := block_timestamp e \<rparr>),
            log := log s @
               [RecordUpdated rid (msg_sender e) (block_timestamp e) h l] \<rparr>"
  using assms by (auto simp: updateRecord_def split: if_splits)

lemma deactivateRecord_InrD:
  assumes "deactivateRecord s e rid = Inr s'"
  shows "\<not> paused s" and "isActive (records s rid)"
    and "createdBy (records s rid) = msg_sender e \<or> hasRole s ADMIN_ROLE (msg_sender e)"
    and "s' = s\<lparr> records := (records s)(rid := (records s rid)\<lparr> isActive := False \<rparr>),
            log := log s @ [RecordDeactivated rid (msg_sender e) (block_timestamp e)] \<rparr>"
  using assms by (auto simp: deactivateRecord_def split: if_splits)

text \<open>What the role-granting calls leave alone.\<close>

lemma grantRole_internal_frame:
  "paused (grantRole_internal s r a x) = paused s"
  "records (grantRole_internal s r a x) = records s"
  "recordAccess (grantRole_internal s r a x) = recordAccess s"
  "patientRecords (grantRole_internal s r a x) = patientRecords s"
  "organizationRecords (grantRole_internal s r a x) = organizationRecords s"
  "hasAccessCache (grantRole_internal s r a x) = hasAccessCache s"
  "allRecordIds (grantRole_internal s r a x) = allRecordIds s"
  "registeredOrganizations (grantRole_internal s r a x) = registeredOrganizations s"
  by (simp_all add: grantRole_internal_def)

lemma grantRole_internal_mono:
  "hasRole s r' a' \<Longrightarrow> hasRole (grantRole_internal s r a x) r' a'"
  by (auto simp: grantRole_internal_def hasRole_def)

lemma hasRole_frame [simp]:
  "hasRole (s\<lparr> registeredOrganizations := x \<rparr>) r a = hasRole s r a"
  "hasRole (s\<lparr> log := y \<rparr>) r a = hasRole s r a"
  by (simp_all add: hasRole_def)

lemma batch_loop_frame:
  "paused (batch_loop s x orgs) = paused s"
  "records (batch_loop s x orgs) = records s"
  "recordAccess (batch_loop s x orgs) = recordAccess s"
  "patientRecords (batch_loop s x orgs) = patientRecords s"
  "organizationRecords (batch_loop s x orgs) = organizationRecords s"
  "hasAccessCache (batch_loop s x orgs) = hasAccessCache s"
  "allRecordIds (batch_loop s x orgs) = allRecordIds s"
  by (induction s x orgs rule: batch_loop.induct; simp add: Let_def grantRole_internal_frame)+

lemma batch_loop_mono:
  "hasRole s r a \<Longrightarrow> hasRole (batch_loop s x orgs) r a"
proof (induction s x orgs rule: batch_loop.induct)
  case (1 s sender)
  then show ?case by simp
next
  case (2 s sender org orgs)
  then show ?case
    by (auto simp: Let_def grantRole_internal_mono)
qed

lemma registerOrganization_InrD:
  assumes "registerOrganization s e org = Inr s'"
  shows "same_ledger s s'" and "\<And>r a. hasRole s r a \<Longrightarrow> hasRole s' r a"
    and "paused s' = paused s" and "\<not> paused s"
  using assms
  by (auto simp: registerOrganization_def Let_def same_ledger_def grantRole_internal_frame
      hasRole_def grantRole_internal_def split: if_splits)

lemma batchRegisterOrganizations_InrD:
  assumes "batchRegisterOrganizations s e orgs = Inr s'"
  shows "same_ledger s s'" and "\<And>r a. hasRole s r a \<Longrightarrow> hasRole s' r a"
    and "paused s' = paused s" and "\<not> paused s"
  using assms
  by (auto simp: batchRegisterOrganizations_def same_ledger_def batch_loop_frame
      batch_loop_mono split: if_splits)

lemma pause_InrD:
  assumes "pause s e = Inr s'"
  shows "same_ledger s s'" and "roles s' = roles s" and "hasRole s ADMIN_ROLE (msg_sender e)"
  using assms by (auto simp: pause_def same_ledger_def split: if_splits)

lemma unpause_InrD:
  assumes "unpause s e = Inr s'"
  shows "same_ledger s s'" and "roles s' = roles s" and "hasRole s ADMIN_ROLE (msg_sender e)"
  using assms by (auto simp: unpause_def same_ledger_def split: if_splits)

lemma revokeRole_internal_frame:
  "paused (revokeRole_internal s r a x) = paused s"
  "records (revokeRole_internal s r a x) = records s"
  "recordAccess (revokeRole_internal s r a x) = recordAccess s"
  "patientRecords (revokeRole_internal s r a x) = patientRecords s"
  "organizationRecords (revokeRole_internal s r a x) = organizationRecords s"
  "hasAccessCache (revokeRole_internal s r a x) = hasAccessCache s"
  "allRecordIds (revokeRole_internal s r a x) = allRecordIds s"
  "registeredOrganizations (revokeRole_internal s r a x) = registeredOrganizations s"
  by (simp_all add: revokeRole_internal_def)

lemma grantRole_InrD:
  assumes "grantRole s e r account = Inr s'"
  shows "same_ledger s s'" and "paused s' = paused s"
  using assms
  by (auto simp: grantRole_def same_ledger_def grantRole_internal_frame split: if_splits)

lemma revokeRole_InrD:
  assumes "revokeRole s e r account = Inr s'"
  shows "same_ledger s s'" and "paused s' = paused s"
  using assms
  by (auto simp: revokeRole_def same_ledger_def revokeRole_internal_frame split: if_splits)

lemma renounceRole_InrD:
  assumes "renounceRole s e r account = Inr s'"
  shows "same_ledger s s'" and "paused s' = paused s"
  using assms
  by (auto simp: renounceRole_def same_ledger_def revokeRole_internal_frame split: if_splits)

section \<open>Steps and the invariants they keep\<close>

lemma step_cases [case_names unchanged admin create grant revoke update deactivate]:
  fixes H s tx
  defines "s' \<equiv> step H s tx"
  obtains "s' = s"
  | "same_ledger s s'"
  | e p h l rid where "tx = (e, CreateRecord p h l)" "createRecord H s e p h l = Inr (rid, s')"
  | e rid org where "tx = (e, GrantAccess rid org)" "grantAccess s e rid org = Inr s'"
  | e rid org where "tx = (e, RevokeAccess rid org)" "revokeAccess s e rid org = Inr s'"
  | e rid h l where "tx = (e, UpdateRecord rid h l)" "updateRecord s e rid h l = Inr s'"
  | e rid where "tx = (e, DeactivateRecord rid)" "deactivateRecord s e rid = Inr s'"
proof -
  obtain e c where tx: "tx = (e, c)" by (cases tx)
  show thesis
  proof (cases "exec H s e c")
    case (Inl err)
    then have "s' = s" by (simp add: s'_def step_def tx)
    then show thesis by (rule that(1))
  next
    case (Inr t)
    then have t: "s' = t" by (simp add: s'_def step_def tx)
    show thesis
    proof (cases c)
      case (RegisterOrganization org)
      with Inr t have "registerOrganization s e org = Inr s'" by simp
      from registerOrganization_InrD(1)[OF this] show thesis by (rule that(2))
    next
      case (BatchRegisterOrganizations orgs)
      with Inr t have "batchRegisterOrganizations s e orgs = Inr s'" by simp
      from batchRegisterOrganizations_InrD(1)[OF this] show thesis by (rule that(2))
    next
      case (CreateRecord p h l)
      with Inr t obtain rid where "createRecord H s e p h l = Inr (rid, s')"
        by (cases "createRecord H s e p h l") auto
      with tx CreateRecord show thesis by (auto intro: that(3))
    next
      case (GrantAccess rid org)
      with Inr t tx show thesis by (auto intro: that(4))
    next
      case (RevokeAccess rid org)
      with Inr t tx show thesis by (auto intro: that(5))
    next
      case (UpdateRecord rid h l)
      with Inr t tx show thesis by (auto intro: that(6))
    next
      case (DeactivateRecord rid)
      with Inr t tx show thesis by (auto intro: that(7))
    next
      case Pause
      with Inr t have "pause s e = Inr s'" by simp
      from pause_InrD(1)[OF this] show thesis by (rule that(2))
    next
      case Unpause
      with Inr t have "unpause s e = Inr s'" by simp
      from unpause_InrD(1)[OF this] show thesis by (rule that(2))
    next
      case (GrantRole r account)
      with Inr t have "grantRole s e r account = Inr s'" by simp
      from grantRole_InrD(1)[OF this] show thesis by (rule that(2))
    next
      case (RevokeRole r account)
      with Inr t have "revokeRole s e r account = Inr s'" by simp
      from revokeRole_InrD(1)[OF this] show thesis by (rule that(2))
    next
      case (RenounceRole r account)
      with Inr t have "renounceRole s e r account = Inr s'" by simp
      from renounceRole_InrD(1)[OF this] show thesis by (rule that(2))
    qed
  qed
qed

lemma step_inv_index:
  assumes "inv_index s"
  shows "inv_index (step H s tx)"
proof (cases rule: step_cases[where H=H and s=s and tx=tx])
  case unchanged
  with assms show ?thesis by simp
next
  case admin
  with assms show ?thesis by (simp add: inv_index_def same_ledger_def)
next
  case (create e p h l rid)
  from createRecord_InrD(6)[OF create(2)] assms show ?thesis
    by (auto simp: inv_index_def split: if_splits)
next
  case (grant e rid org)
  from grantAccess_InrD(3,8)[OF grant(2)] assms show ?thesis
    by (auto simp: inv_index_def split: if_splits)
next
  case (revoke e rid org)
  from revokeAccess_InrD(8)[OF revoke(2)] obtain gs' where
    "step H s tx = s\<lparr> recordAccess := (recordAccess s)(rid := gs'),
       hasAccessCache := (hasAccessCache s)(rid := (hasAccessCache s rid)(org := False)),
       log := log s @ [AccessRevoked rid org (msg_sender e) (block_timestamp e)] \<rparr>"
    by blast
  with revokeAccess_InrD(3)[OF revoke(2)] assms show ?thesis
    unfolding inv_index_def by (simp split: if_splits)
next
  case (update e rid h l)
  from updateRecord_InrD(3,5)[OF update(2)] assms show ?thesis
    by (auto simp: inv_index_def split: if_splits)
next
  case (deactivate e rid)
  from deactivateRecord_InrD(2,4)[OF deactivate(2)] assms show ?thesis
    by (auto simp: inv_index_def split: if_splits)
qed

lemma entries_of_snoc:
  "entries_of org (gs @ [g]) = entries_of org gs @ (if organization g = org then [g] else [])"
  by (simp add: entries_of_def)

lemma scan_access_entries:
  "scan_access org gs \<longleftrightarrow> (\<exists>g\<in>set (entries_of org gs). \<not> isRevoked g)"
  by (auto simp: scan_access_iff entries_of_def)

lemma scan_access_snoc:
  "scan_access org (gs @ [g]) \<longleftrightarrow> scan_access org gs \<or> (organization g = org \<and> \<not> isRevoked g)"
  by (auto simp: scan_access_iff)

lemma revoke_first_other:
  assumes "revoke_first org now gs = Some gs'" and "org' \<noteq> org"
  shows "entries_of org' gs' = entries_of org' gs"
  using assms
  by (induction gs arbitrary: gs') (auto simp: entries_of_def split: if_splits)

lemma revoke_first_all_revoked:
  assumes "revoke_first org now gs = Some gs'"
    and "\<forall>g\<in>set (butlast (entries_of org gs)). isRevoked g"
  shows "\<forall>g\<in>set (entries_of org gs'). isRevoked g"
  using assms
proof (induction gs arbitrary: gs')
  case Nil
  then show ?case by simp
next
  case (Cons g gs)
  show ?case
  proof (cases "organization g = org \<and> \<not> isRevoked g")
    case True
    with Cons.prems(2) have "entries_of org gs = []"
      by (auto simp: entries_of_def split: if_splits)
    with True Cons.prems(1) show ?thesis
      by (auto simp: entries_of_def filter_empty_conv)
  next
    case False
    with Cons.prems(1) obtain gs1 where gs1: "revoke_first org now gs = Some gs1" "gs' = g # gs1"
      by auto
    have "\<forall>g\<in>set (butlast (entries_of org gs)). isRevoked g"
      using Cons.prems(2) by (auto simp: entries_of_def split: if_splits)
    from Cons.IH[OF gs1(1) this] have ih: "\<forall>g\<in>set (entries_of org gs1). isRevoked g" .
    show ?thesis
    proof (cases "organization g = org")
      case True
      with False have "isRevoked g" by simp
      with ih gs1(2) show ?thesis by (auto simp: entries_of_def)
    next
      case False
      with ih gs1(2) show ?thesis by (auto simp: entries_of_def)
    qed
  qed
qed

lemma revoke_first_succeeds:
  "scan_access org gs \<Longrightarrow> \<exists>gs'. revoke_first org now gs = Some gs'"
  by (induction gs) auto

lemma step_inv_grants:
  assumes "inv_index s" and "inv_grants s" and "fresh H s tx"
  shows "inv_grants (step H s tx)"
proof (cases rule: step_cases[where H=H and s=s and tx=tx])
  case unchanged
  with assms show ?thesis by simp
next
  case admin
  with assms show ?thesis by (simp add: inv_grants_def same_ledger_def)
next
  case (create e p h l rid)
  from create assms(3) have "rid \<notin> set (allRecordIds s)"
    by (simp add: fresh_def)
  with assms(1) have new: "recordAccess s rid = []" "\<And>org. \<not> hasAccessCache s rid org"
    by (auto simp: inv_index_def)
  from createRecord_InrD(6)[OF create(2)] assms(2) new show ?thesis
    by (auto simp: inv_grants_def entries_of_def)
next
  case (grant e rid org)
  note D = grantAccess_InrD[OF grant(2)]
  from D(3,7) assms(2) have none: "\<not> scan_access org (recordAccess s rid)"
    by (auto simp: internal_hasAccess_def inv_grants_def)
  then have revoked: "\<forall>g\<in>set (entries_of org (recordAccess s rid)). isRevoked g"
    by (simp add: scan_access_entries)
  show ?thesis
    unfolding inv_grants_def
  proof (intro allI conjI)
    fix r org'
    show "\<forall>g\<in>set (butlast (entries_of org' (recordAccess (step H s tx) r))). isRevoked g"
      using D(8) assms(2) revoked
      by (auto simp: inv_grants_def entries_of_snoc)
    show "hasAccessCache (step H s tx) r org' \<longleftrightarrow> scan_access org' (recordAccess (step H s tx) r)"
      using D(8) assms(2) by (auto simp: inv_grants_def scan_access_snoc)
  qed
next
  case (revoke e rid org)
  note D = revokeAccess_InrD[OF revoke(2)]
  from D(8) obtain gs' where gs': "revoke_first org (block_timestamp e) (recordAccess s rid) = Some gs'"
    and s': "step H s tx = s\<lparr> recordAccess := (recordAccess s)(rid := gs'),
       hasAccessCache := (hasAccessCache s)(rid := (hasAccessCache s rid)(org := False)),
       log := log s @ [AccessRevoked rid org (msg_sender e) (block_timestamp e)] \<rparr>"
    by blast
  from assms(2) have "\<forall>g\<in>set (butlast (entries_of org (recordAccess s rid))). isRevoked g"
    by (simp add: inv_grants_def)
  from revoke_first_all_revoked[OF gs' this]
  have all: "\<forall>g\<in>set (entries_of org gs'). isRevoked g" .
  show ?thesis
    unfolding inv_grants_def
  proof (intro allI conjI)
    fix r org'
    show "\<forall>g\<in>set (butlast (entries_of org' (recordAccess (step H s tx) r))). isRevoked g"
    proof (cases "r = rid \<and> org' = org")
      case True
      with all s' show ?thesis by (auto dest: in_set_butlastD)
    next
      case False
      with s' assms(2) revoke_first_other[OF gs', of org'] show ?thesis
        by (auto simp: inv_grants_def)
    qed
    show "hasAccessCache (step H s tx) r org' \<longleftrightarrow> scan_access org' (recordAccess (step H s tx) r)"
    proof (cases "r = rid \<and> org' = org")
      case True
      with all s' show ?thesis by (simp add: scan_access_entries)
    next
      case False
      with s' assms(2) revoke_first_other[OF gs', of org'] show ?thesis
        by (auto simp: inv_grants_def scan_access_entries)
    qed
  qed
next
  case (update e rid h l)
  from updateRecord_InrD(5)[OF update(2)] assms(2) show ?thesis
    by (simp add: inv_grants_def)
next
  case (deactivate e rid)
  from deactivateRecord_InrD(4)[OF deactivate(2)] assms(2) show ?thesis
    by (simp add: inv_grants_def)
qed

section \<open>Runs\<close>

lemma run_append: "run H s (xs @ ys) = run H (run H s xs) ys"
  by (induction xs arbitrary: s) auto

lemma fresh_run_append:
  "fresh_run H s (xs @ ys) \<longleftrightarrow> fresh_run H s xs \<and> fresh_run H (run H s xs) ys"
  by (induction xs arbitrary: s) auto

lemma created_by_hashed_by: "created_by H s tx = map H (hashed_by H s tx)"
proof (cases tx)
  case (Pair e c)
  then show ?thesis
    by (cases c) (auto simp: createRecord_def Let_def split: sum.splits if_splits)
qed

lemma hashed_by_seq_no:
  "x \<in> set (hashed_by H s tx) \<Longrightarrow> seq_no x = length (allRecordIds s)"
proof (cases tx)
  case (Pair e c)
  assume "x \<in> set (hashed_by H s tx)"
  with Pair show ?thesis
    by (cases c) (auto simp: preimage_of_def seq_no_def split: sum.splits)
qed

lemma allRecordIds_step:
  "allRecordIds (step H s tx) = allRecordIds s @ created_by H s tx"
proof -
  obtain e c where tx: "tx = (e, c)" by (cases tx)
  show ?thesis
  proof (cases c)
    case (RegisterOrganization org)
    then show ?thesis
      using registerOrganization_InrD(1)[of s e org]
      by (auto simp: tx step_def same_ledger_def split: sum.splits)
  next
    case (BatchRegisterOrganizations orgs)
    then show ?thesis
      using batchRegisterOrganizations_InrD(1)[of s e orgs]
      by (auto simp: tx step_def same_ledger_def split: sum.splits)
  next
    case (CreateRecord p h l)
    show ?thesis
    proof (cases "createRecord H s e p h l")
      case (Inl err)
      with tx CreateRecord show ?thesis by (simp add: step_def)
    next
      case (Inr res)
      then have "createRecord H s e p h l = Inr (fst res, snd res)" by simp
      from createRecord_InrD(6)[OF this] Inr tx CreateRecord show ?thesis
        by (simp add: step_def)
    qed
  next
    case (GrantAccess rid org)
    then show ?thesis
      using grantAccess_InrD(8)[of s e rid org]
      by (auto simp: tx step_def split: sum.splits)
  next
    case (RevokeAccess rid org)
    then show ?thesis
      using revokeAccess_InrD(8)[of s e rid org]
      by (auto simp: tx step_def split: sum.splits)
  next
    case (UpdateRecord rid h l)
    then show ?thesis
      using updateRecord_InrD(5)[of s e rid h l]
      by (auto simp: tx step_def split: sum.splits)
  next
    case (DeactivateRecord rid)
    then show ?thesis
      using deactivateRecord_InrD(4)[of s e rid]
      by (auto simp: tx step_def split: sum.splits)
  next
    case Pause
    then show ?thesis
      using pause_InrD(1)[of s e]
      by (auto simp: tx step_def same_ledger_def split: sum.splits)
  next
    case Unpause
    then show ?thesis
      using unpause_InrD(1)[of s e]
      by (auto simp: tx step_def same_ledger_def split: sum.splits)
  next
    case (GrantRole r account)
    then show ?thesis
      using grantRole_InrD(1)[of s e r account]
      by (auto simp: tx step_def same_ledger_def split: sum.splits)
  next
    case (RevokeRole r account)
    then show ?thesis
      using revokeRole_InrD(1)[of s e r account]
      by (auto simp: tx step_def same_ledger_def split: sum.splits)
  next
    case (RenounceRole r account)
    then show ?thesis
      using renounceRole_InrD(1)[of s e r account]
      by (auto simp: tx step_def same_ledger_def split: sum.splits)
  qed
qed

lemma constructor_ledger:
  "allRecordIds (constructor d) = []" "records (constructor d) = (\<lambda>_. zero_record)"
  "recordAccess (constructor d) = (\<lambda>_. [])" "hasAccessCache (constructor d) = (\<lambda>_ _. False)"
  "paused (constructor d) = False"
  by (simp_all add: constructor_def grantRole_internal_frame blank_def)

lemma constructor_inv:
  "inv_index (constructor d)" "inv_grants (constructor d)"
  by (simp_all add: inv_index_def inv_grants_def constructor_ledger
      zero_record_def entries_of_def)

lemma run_inv_index: "inv_index s \<Longrightarrow> inv_index (run H s txs)"
  by (induction txs arbitrary: s) (auto intro: step_inv_index)

lemma run_inv_grants:
  "inv_index s \<Longrightarrow> inv_grants s \<Longrightarrow> fresh_run H s txs \<Longrightarrow> inv_grants (run H s txs)"
  by (induction txs arbitrary: s) (auto intro: step_inv_index step_inv_grants)

lemma allRecordIds_run:
  "allRecordIds (run H s txs) = allRecordIds s @ created H s txs"
  by (induction txs arbitrary: s) (auto simp: allRecordIds_step)

lemma created_hashed: "created H s txs = map H (hashed H s txs)"
  by (induction txs arbitrary: s) (auto simp: created_by_hashed_by)

text \<open>
  Where the hash does not collide on the tuples of a run, every creation of the run is
  fresh: the tuple of a new creation carries a sequence number that no earlier tuple has.
\<close>

lemma inj_on_fresh_run:
  assumes "set (allRecordIds s) = H ` P"
    and "\<forall>x\<in>P. seq_no x < length (allRecordIds s)"
    and "inj_on H (P \<union> set (hashed H s txs))"
  shows "fresh_run H s txs"
  using assms
proof (induction txs arbitrary: s P)
  case Nil
  then show ?case by simp
next
  case (Cons tx txs)
  let ?new = "set (hashed_by H s tx)"
  have inj: "inj_on H (P \<union> ?new)"
    using Cons.prems(3) by (auto intro: inj_on_subset)
  have "fresh H s tx"
    unfolding fresh_def
  proof
    fix r assume "r \<in> set (created_by H s tx)"
    then obtain x where x: "x \<in> ?new" "r = H x"
      by (auto simp: created_by_hashed_by)
    from hashed_by_seq_no[OF x(1)] Cons.prems(2) have "x \<notin> P" by auto
    with inj x(1) have "H x \<notin> H ` P"
      by (auto dest: inj_onD)
    with x(2) Cons.prems(1) show "r \<notin> set (allRecordIds s)" by simp
  qed
  moreover have "fresh_run H (step H s tx) txs"
  proof (rule Cons.IH[where P = "P \<union> ?new"])
    show "set (allRecordIds (step H s tx)) = H ` (P \<union> ?new)"
      using Cons.prems(1) by (auto simp: allRecordIds_step created_by_hashed_by)
    show "\<forall>x\<in>P \<union> ?new. seq_no x < length (allRecordIds (step H s tx))"
    proof
      fix x assume "x \<in> P \<union> ?new"
      then show "seq_no x < length (allRecordIds (step H s tx))"
      proof
        assume "x \<in> P"
        with Cons.prems(2) show ?thesis by (auto simp: allRecordIds_step)
      next
        assume n: "x \<in> ?new"
        then have "created_by H s tx \<noteq> []" by (auto simp: created_by_hashed_by)
        with hashed_by_seq_no[OF n] show ?thesis by (simp add: allRecordIds_step)
      qed
    qed
    show "inj_on H (P \<union> ?new \<union> set (hashed H (step H s tx) txs))"
      using Cons.prems(3) by (simp add: Un_assoc)
  qed
  ultimately show ?case by simp
qed

lemma constructor_fresh_run:
  assumes "inj_on H (set (hashed H (constructor d) txs))"
  shows "fresh_run H (constructor d) txs"
  using inj_on_fresh_run[where P = "{}" and s = "constructor d" and H = H and txs = txs] assms
  by (simp add: constructor_ledger)

lemma fresh_run_distinct:
  "distinct (allRecordIds s) \<Longrightarrow> fresh_run H s txs \<Longrightarrow> distinct (allRecordIds s @ created H s txs)"
proof (induction txs arbitrary: s)
  case Nil
  then show ?case by simp
next
  case (Cons tx txs)
  have "length (created_by H s tx) \<le> 1"
    by (cases tx, cases "snd tx") (auto split: sum.splits)
  then have "distinct (created_by H s tx)"
    by (cases "created_by H s tx") auto
  with Cons.prems have "distinct (allRecordIds (step H s tx))"
    by (auto simp: allRecordIds_step fresh_def)
  from Cons.IH[OF this] Cons.prems(2) show ?case
    by (simp add: allRecordIds_step)
qed

section \<open>Grant lists\<close>

lemma latest_grant_scan:
  assumes "\<forall>g\<in>set (butlast (entries_of org gs)). isRevoked g"
  shows "scan_access org gs \<longleftrightarrow> (\<exists>g. latest_grant gs org = Some g \<and> \<not> isRevoked g)"
proof (cases "entries_of org gs")
  case Nil
  then show ?thesis by (simp add: scan_access_entries latest_grant_def)
next
  case (Cons x xs)
  then have ne: "entries_of org gs \<noteq> []" by simp
  then have split: "entries_of org gs = butlast (entries_of org gs) @ [last (entries_of org gs)]"
    by simp
  have "scan_access org gs \<longleftrightarrow> \<not> isRevoked (last (entries_of org gs))"
  proof
    assume "scan_access org gs"
    then obtain g where g: "g \<in> set (entries_of org gs)" "\<not> isRevoked g"
      by (auto simp: scan_access_entries)
    from g(1) have "g \<in> set (butlast (entries_of org gs)) \<or> g = last (entries_of org gs)"
      by (subst (asm) split) auto
    with g(2) assms show "\<not> isRevoked (last (entries_of org gs))" by auto
  next
    assume "\<not> isRevoked (last (entries_of org gs))"
    with ne show "scan_access org gs"
      by (auto simp: scan_access_entries intro: last_in_set)
  qed
  with Cons show ?thesis by (simp add: latest_grant_def)
qed

lemma active_entries_filter:
  "active_entries org gs = filter (\<lambda>g. \<not> isRevoked g) (entries_of org gs)"
  by (simp add: active_entries_def entries_of_def conj_commute)

lemma active_entries_le_1:
  assumes "\<forall>g\<in>set (butlast (entries_of org gs)). isRevoked g"
  shows "length (active_entries org gs) \<le> 1"
proof (cases "entries_of org gs = []")
  case True
  then show ?thesis by (simp add: active_entries_filter)
next
  case False
  then have "entries_of org gs = butlast (entries_of org gs) @ [last (entries_of org gs)]"
    by simp
  then have "active_entries org gs =
      filter (\<lambda>g. \<not> isRevoked g) (butlast (entries_of org gs)) @
      filter (\<lambda>g. \<not> isRevoked g) [last (entries_of org gs)]"
    by (metis active_entries_filter filter_append)
  moreover have "filter (\<lambda>g. \<not> isRevoked g) (butlast (entries_of org gs)) = []"
    using assms by (simp add: filter_empty_conv)
  ultimately show ?thesis by simp
qed

lemma count_active_eq:
  "count_active gs n = n + length (filter (\<lambda>g. \<not> isRevoked g) gs)"
  by (induction gs arbitrary: n) auto

lemma fill_active_eq:
  assumes "length out = idx + length (filter (\<lambda>g. \<not> isRevoked g) gs)"
  shows "fill_active gs out idx =
     Inr (take idx out @ map organization (filter (\<lambda>g. \<not> isRevoked g) gs))"
  using assms
proof (induction gs arbitrary: out idx)
  case Nil
  then show ?case by simp
next
  case (Cons g gs)
  show ?case
  proof (cases "isRevoked g")
    case True
    with Cons show ?thesis by simp
  next
    case False
    with Cons.prems have lt: "idx < length out" by simp
    from False Cons.prems
    have "length (out[idx := organization g]) = (idx + 1) + length (filter (\<lambda>g. \<not> isRevoked g) gs)"
      by simp
    from Cons.IH[OF this] False lt show ?thesis
      by (simp add: take_Suc_conv_app_nth)
  qed
qed

lemma getRecordAccess_eq:
  "getRecordAccess s rid =
     Inr (map organization (filter (\<lambda>g. \<not> isRevoked g) (recordAccess s rid)))"
  by (simp add: getRecordAccess_def Let_def fill_active_eq count_active_eq)

lemma distinct_active_organizations:
  assumes "\<And>org. length (active_entries org gs) \<le> 1"
  shows "distinct (map organization (filter (\<lambda>g. \<not> isRevoked g) gs))"
  using assms
proof (induction gs)
  case Nil
  then show ?case by simp
next
  case (Cons g gs)
  have tl: "\<And>org. length (active_entries org gs) \<le> 1"
  proof -
    fix org
    from Cons.prems[of org] show "length (active_entries org gs) \<le> 1"
      by (simp add: active_entries_def split: if_splits)
  qed
  note ih = Cons.IH[OF tl]
  show ?case
  proof (cases "isRevoked g")
    case True
    with ih show ?thesis by simp
  next
    case False
    from Cons.prems[of "organization g"] False
    have "active_entries (organization g) gs = []"
      by (simp add: active_entries_def)
    then have "organization g \<notin> organization ` set (filter (\<lambda>g. \<not> isRevoked g) gs)"
      by (auto simp: active_entries_def filter_empty_conv)
    with ih False show ?thesis by simp
  qed
qed

lemma constructor_run_inv_grants:
  assumes "inj_on H (set (hashed H (constructor d) txs))"
  shows "inv_grants (run H (constructor d) txs)"
  by (rule run_inv_grants[OF constructor_inv(1,2) constructor_fresh_run[OF assms]])

section \<open>Deactivation and pause\<close>

lemma step_dead:
  assumes "r \<in> set (allRecordIds s)" and "\<not> isActive (records s r)" and "fresh H s tx"
  shows "\<not> isActive (records (step H s tx) r)"
proof (cases rule: step_cases[where H=H and s=s and tx=tx])
  case unchanged
  with assms show ?thesis by simp
next
  case admin
  with assms show ?thesis by (simp add: same_ledger_def)
next
  case (create e p h l rid)
  from create assms(3) have "rid \<notin> set (allRecordIds s)" by (simp add: fresh_def)
  with assms(1) have "rid \<noteq> r" by auto
  with createRecord_InrD(6)[OF create(2)] assms(2) show ?thesis by simp
next
  case (grant e rid org)
  from grantAccess_InrD(8)[OF grant(2)] assms(2) show ?thesis by simp
next
  case (revoke e rid org)
  from revokeAccess_InrD(8)[OF revoke(2)] assms(2) show ?thesis by auto
next
  case (update e rid h l)
  from updateRecord_InrD(3,5)[OF update(2)] assms(2) show ?thesis by auto
next
  case (deactivate e rid)
  from deactivateRecord_InrD(4)[OF deactivate(2)] assms(2) show ?thesis by auto
qed

lemma run_dead:
  assumes "r \<in> set (allRecordIds s)" and "\<not> isActive (records s r)" and "fresh_run H s txs"
  shows "\<not> isActive (records (run H s txs) r)"
  using assms
proof (induction txs arbitrary: s)
  case Nil
  then show ?case by simp
next
  case (Cons tx txs)
  from Cons.prems have "fresh H s tx" by simp
  from step_dead[OF Cons.prems(1,2) this]
  have "\<not> isActive (records (step H s tx) r)" .
  moreover from Cons.prems(1) have "r \<in> set (allRecordIds (step H s tx))"
    by (simp add: allRecordIds_step)
  ultimately show ?case using Cons.IH Cons.prems(3) by simp
qed

lemma step_paused_change:
  assumes "paused (step H s (e, c)) \<noteq> paused s"
  shows "hasRole s ADMIN_ROLE (msg_sender e) \<and> (c = Pause \<or> c = Unpause)"
proof (cases "exec H s e c")
  case (Inl err)
  with assms show ?thesis by (simp add: step_def)
next
  case (Inr s')
  then have s': "step H s (e, c) = s'" by (simp add: step_def)
  show ?thesis
  proof (cases c)
    case (RegisterOrganization org)
    with Inr registerOrganization_InrD(3)[of s e org s'] assms s' show ?thesis by simp
  next
    case (BatchRegisterOrganizations orgs)
    with Inr batchRegisterOrganizations_InrD(3)[of s e orgs s'] assms s' show ?thesis by simp
  next
    case (CreateRecord p h l)
    with Inr obtain rid where "createRecord H s e p h l = Inr (rid, s')"
      by (cases "createRecord H s e p h l") auto
    from createRecord_InrD(6)[OF this] assms s' show ?thesis by simp
  next
    case (GrantAccess rid org)
    with Inr grantAccess_InrD(8)[of s e rid org s'] assms s' show ?thesis by simp
  next
    case (RevokeAccess rid org)
    with Inr revokeAccess_InrD(8)[of s e rid org s'] assms s' show ?thesis by auto
  next
    case (UpdateRecord rid h l)
    with Inr updateRecord_InrD(5)[of s e rid h l s'] assms s' show ?thesis by simp
  next
    case (DeactivateRecord rid)
    with Inr deactivateRecord_InrD(4)[of s e rid s'] assms s' show ?thesis by simp
  next
    case Pause
    with Inr pause_InrD(3)[of s e s'] show ?thesis by simp
  next
    case Unpause
    with Inr unpause_InrD(3)[of s e s'] show ?thesis by simp
  next
    case (GrantRole r account)
    with Inr grantRole_InrD(2)[of s e r account s'] assms s' show ?thesis by simp
  next
    case (RevokeRole r account)
    with Inr revokeRole_InrD(2)[of s e r account s'] assms s' show ?thesis by simp
  next
    case (RenounceRole r account)
    with Inr renounceRole_InrD(2)[of s e r account s'] assms s' show ?thesis by simp
  qed
qed

lemma paused_step:
  assumes "paused s" and "pausable c"
  shows "step H s (e, c) = s"
  using assms
  by (cases c)
    (simp_all add: step_def registerOrganization_def batchRegisterOrganizations_def
      createRecord_def grantAccess_def revokeAccess_def updateRecord_def deactivateRecord_def
      pause_def)

section \<open>Revocation goes through\<close>

text \<open>
  In a state that is not paused, \<open>revokeAccess\<close> by a registered caller with access,
  for another account with access, goes through: the loop finds the entry, and the final
  \<open>revert\<close> of the function is never reached.
\<close>

lemma revokeAccess_succeeds:
  assumes "\<not> paused s"
    and "hasRole s ORGANIZATION_ROLE (msg_sender e)"
    and "hasAccess s rid (msg_sender e)"
    and "hasAccess s rid org"
    and "org \<noteq> 0" and "org \<noteq> msg_sender e"
  shows "\<exists>s'. revokeAccess s e rid org = Inr s'"
proof -
  from assms(4) have o: "isActive (records s rid)" "scan_access org (recordAccess s rid)"
    by (simp_all add: hasAccess_def internal_hasAccess_def split: if_splits)
  from revoke_first_succeeds[OF o(2)] obtain gs' where
    "revoke_first org (block_timestamp e) (recordAccess s rid) = Some gs'" by blast
  with assms o(1) show ?thesis
    by (simp add: revokeAccess_def hasAccess_def)
qed

section \<open>The example runs, evaluated\<close>

lemma exec_not_isl: "\<not> isl (exec H s e c) \<Longrightarrow> exec H s e c = Inr (step H s (e, c))"
  by (cases "exec H s e c") (simp_all add: step_def)

lemma createRecord_not_isl:
  assumes "\<not> isl (createRecord H s e p h l)"
  shows "createRecord H s e p h l =
     Inr (H (preimage_of s e p), step H s (e, CreateRecord p h l))"
proof (cases "createRecord H s e p h l")
  case (Inl err)
  with assms show ?thesis by simp
next
  case (Inr res)
  then have res: "createRecord H s e p h l = Inr (fst res, snd res)" by simp
  from createRecord_InrD(1)[OF res] Inr show ?thesis
    by (simp add: step_def prod_eq_iff)
qed

lemma example_hashed:
  "hashed example_hash (constructor 1) example_txs =
     [(9, 2, 101, 7, 3, 0), (9, 2, 101, 7, 3, 1)]"
  by code_simp

lemma example_inj:
  "inj_on example_hash (set (hashed example_hash (constructor 1) example_txs))"
  unfolding example_hashed by (simp add: example_hash_def seq_no_def)

lemma example_later_hashed:
  "hashed example_hash (constructor 1)
     (example_txs @ (mk_env 2 105, DeactivateRecord 2) # example_later) =
     [(9, 2, 101, 7, 3, 0), (9, 2, 101, 7, 3, 1), (9, 2, 106, 7, 3, 2)]"
  by code_simp

lemma example_later_inj:
  "inj_on example_hash (set (hashed example_hash (constructor 1)
     (example_txs @ (mk_env 2 105, DeactivateRecord 2) # example_later)))"
  unfolding example_later_hashed by (simp add: example_hash_def seq_no_def)

section \<open>The claims\<close>

text \<open>
  C1. \<open>hasAccess(recordId, organization)\<close> is false when the record is inactive, in
  any state, and when no record of that id was ever created; for an active record it is
  true exactly when the most recent grant entry of the organization in the record's
  grant list exists and is not revoked. The last two parts are for the states reached
  from deployment, the last one by a run on whose hashed tuples the hash has no
  collision.
\<close>

theorem hasAccess_latest_grant:
  assumes "inj_on H (set (hashed H (constructor d) txs))"
  shows "(\<not> isActive (records s0 rid) \<longrightarrow> \<not> hasAccess s0 rid org) \<and>
     (rid \<notin> set (allRecordIds (run H (constructor d) txs)) \<longrightarrow>
        \<not> hasAccess (run H (constructor d) txs) rid org) \<and>
     (hasAccess (run H (constructor d) txs) rid org \<longleftrightarrow>
        isActive (records (run H (constructor d) txs) rid) \<and>
        (\<exists>g. latest_grant (recordAccess (run H (constructor d) txs) rid) org = Some g \<and>
             \<not> isRevoked g))"
proof -
  let ?s = "run H (constructor d) txs"
  have "inv_index ?s" by (rule run_inv_index[OF constructor_inv(1)])
  then have missing: "rid \<notin> set (allRecordIds ?s) \<longrightarrow> \<not> hasAccess ?s rid org"
    by (auto simp: inv_index_def hasAccess_def internal_hasAccess_def)
  from constructor_run_inv_grants[OF assms]
  have old: "\<forall>g\<in>set (butlast (entries_of org (recordAccess ?s rid))). isRevoked g"
    and cache: "hasAccessCache ?s rid org \<longleftrightarrow> scan_access org (recordAccess ?s rid)"
    by (simp_all add: inv_grants_def)
  have "hasAccess ?s rid org \<longleftrightarrow>
      isActive (records ?s rid) \<and> scan_access org (recordAccess ?s rid)"
    using cache by (auto simp: hasAccess_def internal_hasAccess_def)
  with latest_grant_scan[OF old] missing show ?thesis
    by (simp add: hasAccess_def internal_hasAccess_def)
qed

theorem hasAccess_latest_grant_witness:
  "inj_on example_hash (set (hashed example_hash (constructor 1) example_txs)) \<and>
   \<not> isActive (records (constructor 1) 4) \<and>
   \<not> hasAccess (constructor 1) 4 3 \<and>
   4 \<notin> set (allRecordIds (run example_hash (constructor 1) example_txs)) \<and>
   \<not> hasAccess (run example_hash (constructor 1) example_txs) 4 3 \<and>
   hasAccess (run example_hash (constructor 1) example_txs) 1 3 \<and>
   isActive (records (run example_hash (constructor 1) example_txs) 1) \<and>
   (\<exists>g. latest_grant (recordAccess (run example_hash (constructor 1) example_txs) 1) 3 = Some g \<and>
        \<not> isRevoked g)"
proof -
  note missing_inst =
    hasAccess_latest_grant[OF example_inj, where ?s0.0 = "constructor 1" and rid = 4 and org = 3]
  note inst =
    hasAccess_latest_grant[OF example_inj, where ?s0.0 = "constructor 1" and rid = 1 and org = 3]
  have missing: "\<not> isActive (records (constructor 1) 4)"
    by code_simp
  have unissued: "4 \<notin> set (allRecordIds (run example_hash (constructor 1) example_txs))"
    by code_simp
  have access: "hasAccess (run example_hash (constructor 1) example_txs) 1 3"
    by code_simp
  from missing_inst inst missing unissued access example_inj show ?thesis
    by blast
qed

text \<open>
  C2. In every state reached from deployment by a run on whose hashed tuples the hash
  has no collision, a record's grant list holds at most one unrevoked entry per
  organization, and \<open>getRecordAccess\<close> returns a list without repetition in which
  every organization has an unrevoked most recent entry.
\<close>

theorem one_active_grant_per_organization:
  assumes "inj_on H (set (hashed H (constructor d) txs))"
  shows "length (active_entries org (recordAccess (run H (constructor d) txs) rid)) \<le> 1 \<and>
     (\<exists>orgs. getRecordAccess (run H (constructor d) txs) rid = Inr orgs \<and> distinct orgs \<and>
        (\<forall>org'\<in>set orgs. \<exists>g.
            latest_grant (recordAccess (run H (constructor d) txs) rid) org' = Some g \<and>
            \<not> isRevoked g))"
proof -
  let ?s = "run H (constructor d) txs"
  let ?gs = "recordAccess ?s rid"
  from constructor_run_inv_grants[OF assms]
  have old: "\<And>org. \<forall>g\<in>set (butlast (entries_of org ?gs)). isRevoked g"
    by (simp add: inv_grants_def)
  have one: "\<And>org. length (active_entries org ?gs) \<le> 1"
    by (rule active_entries_le_1[OF old])
  have "\<forall>org'\<in>set (map organization (filter (\<lambda>g. \<not> isRevoked g) ?gs)).
      \<exists>g. latest_grant ?gs org' = Some g \<and> \<not> isRevoked g"
  proof
    fix org' assume "org' \<in> set (map organization (filter (\<lambda>g. \<not> isRevoked g) ?gs))"
    then have "scan_access org' ?gs" by (auto simp: scan_access_iff)
    with latest_grant_scan[OF old] show "\<exists>g. latest_grant ?gs org' = Some g \<and> \<not> isRevoked g"
      by simp
  qed
  with one distinct_active_organizations[OF one] show ?thesis
    by (simp add: getRecordAccess_eq)
qed

theorem one_active_grant_per_organization_witness:
  "inj_on example_hash (set (hashed example_hash (constructor 1) example_txs)) \<and>
   length (active_entries 3 (recordAccess (run example_hash (constructor 1) example_txs) 1)) \<le> 1 \<and>
   getRecordAccess (run example_hash (constructor 1) example_txs) 1 = Inr [2, 3] \<and>
   (\<exists>g. latest_grant (recordAccess (run example_hash (constructor 1) example_txs) 1) 3 = Some g \<and>
        \<not> isRevoked g)"
proof -
  note inst = one_active_grant_per_organization[OF example_inj, where org = 3 and rid = 1]
  have listed: "getRecordAccess (run example_hash (constructor 1) example_txs) 1 = Inr [2, 3]"
    by code_simp
  from inst listed example_inj show ?thesis
    by auto
qed

text \<open>
  C3. After a successful \<open>revokeAccess(r, org)\<close>, in any state, the organization has
  no access to the record, and a \<open>grantAccess(r, org)\<close> that follows, by a registered
  organization that has access to the record and for \<open>org\<close> a registered organization,
  succeeds and gives \<open>org\<close> access again.
\<close>

theorem revoke_then_regrant:
  assumes "revokeAccess s e rid org = Inr s'"
    and "hasRole s' ORGANIZATION_ROLE (msg_sender e2)"
    and "hasAccess s' rid (msg_sender e2)"
    and "hasRole s' ORGANIZATION_ROLE org"
  shows "\<not> hasAccess s' rid org \<and>
     (\<exists>s''. grantAccess s' e2 rid org = Inr s'' \<and> hasAccess s'' rid org)"
proof -
  note D = revokeAccess_InrD[OF assms(1)]
  from D(8) obtain gs' where
    s': "s' = s\<lparr> recordAccess := (recordAccess s)(rid := gs'),
       hasAccessCache := (hasAccessCache s)(rid := (hasAccessCache s rid)(org := False)),
       log := log s @ [AccessRevoked rid org (msg_sender e) (block_timestamp e)] \<rparr>"
    by blast
  have gone: "\<not> internal_hasAccess s' rid org"
    by (simp add: internal_hasAccess_def s')
  have running: "\<not> paused s'" and active: "isActive (records s' rid)"
    using D(2,3) by (simp_all add: s')
  from assms(3) have acc: "internal_hasAccess s' rid (msg_sender e2)"
    by (simp add: hasAccess_def)
  have "grantAccess s' e2 rid org = Inr
        (s'\<lparr> recordAccess := (recordAccess s')(rid := recordAccess s' rid @
               [\<lparr> organization = org, grantedAt = block_timestamp e2,
                  revokedAt = 0, isRevoked = False \<rparr>]),
            hasAccessCache := (hasAccessCache s')(rid := (hasAccessCache s' rid)(org := True)),
            organizationRecords := (organizationRecords s')(org :=
               organizationRecords s' org @ [rid]),
            log := log s' @ [AccessGranted rid org (msg_sender e2) (block_timestamp e2)] \<rparr>)"
    using assms(2,4) gone running active acc D(4)
    by (simp add: grantAccess_def)
  moreover have "hasAccess
        (s'\<lparr> recordAccess := (recordAccess s')(rid := recordAccess s' rid @
               [\<lparr> organization = org, grantedAt = block_timestamp e2,
                  revokedAt = 0, isRevoked = False \<rparr>]),
            hasAccessCache := (hasAccessCache s')(rid := (hasAccessCache s' rid)(org := True)),
            organizationRecords := (organizationRecords s')(org :=
               organizationRecords s' org @ [rid]),
            log := log s' @ [AccessGranted rid org (msg_sender e2) (block_timestamp e2)] \<rparr>)
        rid org"
    using active by (simp add: hasAccess_def internal_hasAccess_def scan_access_snoc)
  ultimately show ?thesis using gone by (simp add: hasAccess_def)
qed

theorem revoke_then_regrant_witness:
  "revokeAccess (run example_hash (constructor 1) example_granted) (mk_env 2 103) 1 3 =
     Inr (step example_hash (run example_hash (constructor 1) example_granted)
            (mk_env 2 103, RevokeAccess 1 3)) \<and>
   hasRole (step example_hash (run example_hash (constructor 1) example_granted)
            (mk_env 2 103, RevokeAccess 1 3)) ORGANIZATION_ROLE (msg_sender (mk_env 2 104)) \<and>
   hasAccess (step example_hash (run example_hash (constructor 1) example_granted)
            (mk_env 2 103, RevokeAccess 1 3)) 1 (msg_sender (mk_env 2 104)) \<and>
   hasRole (step example_hash (run example_hash (constructor 1) example_granted)
            (mk_env 2 103, RevokeAccess 1 3)) ORGANIZATION_ROLE 3 \<and>
   \<not> hasAccess (step example_hash (run example_hash (constructor 1) example_granted)
            (mk_env 2 103, RevokeAccess 1 3)) 1 3 \<and>
   (\<exists>s''. grantAccess (step example_hash (run example_hash (constructor 1) example_granted)
            (mk_env 2 103, RevokeAccess 1 3)) (mk_env 2 104) 1 3 = Inr s'' \<and>
        hasAccess s'' 1 3)"
proof -
  have "\<not> isl (exec example_hash (run example_hash (constructor 1) example_granted)
      (mk_env 2 103) (RevokeAccess 1 3))"
    by code_simp
  from exec_not_isl[OF this]
  have revoked: "revokeAccess (run example_hash (constructor 1) example_granted) (mk_env 2 103) 1 3 =
     Inr (step example_hash (run example_hash (constructor 1) example_granted)
            (mk_env 2 103, RevokeAccess 1 3))"
    by simp
  have caller_role: "hasRole (step example_hash (run example_hash (constructor 1) example_granted)
            (mk_env 2 103, RevokeAccess 1 3)) ORGANIZATION_ROLE (msg_sender (mk_env 2 104))"
    by code_simp
  have caller: "hasAccess (step example_hash (run example_hash (constructor 1) example_granted)
            (mk_env 2 103, RevokeAccess 1 3)) 1 (msg_sender (mk_env 2 104))"
    by code_simp
  have org_role: "hasRole (step example_hash (run example_hash (constructor 1) example_granted)
            (mk_env 2 103, RevokeAccess 1 3)) ORGANIZATION_ROLE 3"
    by code_simp
  from revoke_then_regrant[OF revoked caller_role caller org_role]
    revoked caller_role caller org_role
  show ?thesis by blast
qed

text \<open>
  C4 (amended). \<open>getRecord\<close> returns the stored record whatever its activity, and
  \<open>hasAccess\<close> is false for a deactivated record; \<open>getPatientRecords\<close>,
  \<open>getPatientRecordCount\<close> and \<open>getTotalRecordCount\<close> do not look at the activity
  flag: \<open>deactivateRecord\<close> leaves their results as they were, so the deactivated
  record stays listed for its patient and counted.
\<close>

theorem deactivateRecord_reads:
  assumes "deactivateRecord s e rid = Inr s'"
  shows "getRecord s' rid = (getRecord s rid)\<lparr> isActive := False \<rparr> \<and>
     \<not> hasAccess s' rid org \<and>
     getPatientRecords s' = getPatientRecords s \<and>
     getPatientRecordCount s' = getPatientRecordCount s \<and>
     getTotalRecordCount s' = getTotalRecordCount s"
  using deactivateRecord_InrD(4)[OF assms]
  by (auto simp: getRecord_def hasAccess_def internal_hasAccess_def getPatientRecords_def
      getPatientRecordCount_def getTotalRecordCount_def fun_eq_iff)

theorem deactivateRecord_reads_witness:
  "deactivateRecord (run example_hash (constructor 1) example_created) (mk_env 2 102) 1 =
     Inr (step example_hash (run example_hash (constructor 1) example_created)
            (mk_env 2 102, DeactivateRecord 1)) \<and>
   \<not> hasAccess (step example_hash (run example_hash (constructor 1) example_created)
            (mk_env 2 102, DeactivateRecord 1)) 1 2 \<and>
   getPatientRecords (step example_hash (run example_hash (constructor 1) example_created)
            (mk_env 2 102, DeactivateRecord 1)) =
     getPatientRecords (run example_hash (constructor 1) example_created) \<and>
   getTotalRecordCount (step example_hash (run example_hash (constructor 1) example_created)
            (mk_env 2 102, DeactivateRecord 1)) =
     getTotalRecordCount (run example_hash (constructor 1) example_created)"
proof -
  have "\<not> isl (exec example_hash (run example_hash (constructor 1) example_created)
      (mk_env 2 102) (DeactivateRecord 1))"
    by code_simp
  from exec_not_isl[OF this]
  have deact: "deactivateRecord (run example_hash (constructor 1) example_created) (mk_env 2 102) 1 =
     Inr (step example_hash (run example_hash (constructor 1) example_created)
            (mk_env 2 102, DeactivateRecord 1))"
    by simp
  from deactivateRecord_reads[OF deact, where org = 2] deact show ?thesis
    by blast
qed

text \<open>
  The claim as stated fails: after organization 2 has created record 1 for patient 9
  and deactivated it, the record is inactive and still listed for the patient and for
  the organization, and still counted.
\<close>

theorem inactive_record_still_listed:
  "\<not> isActive (getRecord (run example_hash (constructor 1) example_deactivated) 1) \<and>
   getPatientRecords (run example_hash (constructor 1) example_deactivated) 9 = [1] \<and>
   getPatientRecordCount (run example_hash (constructor 1) example_deactivated) 9 = 1 \<and>
   getOrganizationRecords (run example_hash (constructor 1) example_deactivated) 2 = [1] \<and>
   getTotalRecordCount (run example_hash (constructor 1) example_deactivated) = 1"
  by code_simp

text \<open>
  C5. The record ids returned by the successful \<open>createRecord\<close> calls of a run from
  deployment are pairwise different, whatever the timestamps and the other inputs of the
  calls, provided the hash has no collision on the tuples these calls hash. The tuples
  themselves always differ, in the sequence number \<open>_allRecordIds.length\<close>.
\<close>

theorem createRecord_ids_distinct:
  assumes "inj_on H (set (hashed H (constructor d) txs))"
  shows "distinct (created H (constructor d) txs)"
  using fresh_run_distinct[OF _ constructor_fresh_run[OF assms]]
  by (simp add: constructor_ledger)

theorem createRecord_ids_distinct_witness:
  "inj_on example_hash (set (hashed example_hash (constructor 1) example_txs)) \<and>
   distinct (created example_hash (constructor 1) example_txs) \<and>
   created example_hash (constructor 1) example_txs = [1, 2]"
proof -
  have ids: "created example_hash (constructor 1) example_txs = [1, 2]"
    by code_simp
  from createRecord_ids_distinct[OF example_inj] ids example_inj show ?thesis
    by blast
qed

text \<open>
  C6. After a successful \<open>deactivateRecord(r)\<close>, a second \<open>deactivateRecord(r)\<close> by
  any caller is rejected with the revert of \<open>recordExists\<close> (the record does not exist
  or is inactive), and \<open>hasAccess(r, org)\<close> is false for every organization in that
  state and in every state that a continuation of the run reaches; there the second
  deactivation is rejected in the same way whenever the contract is not paused. The
  run is from deployment, with no collision of the hash on its hashed tuples.
\<close>

theorem deactivateRecord_twice:
  assumes "inj_on H (set (hashed H (constructor d) (txs1 @ (e, DeactivateRecord rid) # txs2)))"
    and "deactivateRecord (run H (constructor d) txs1) e rid = Inr s'"
  shows "deactivateRecord s' e' rid =
       Inl (Revert ''HealthcareDB: Record does not exist or is inactive'') \<and>
     \<not> hasAccess (run H s' txs2) rid org \<and>
     (\<not> paused (run H s' txs2) \<longrightarrow> deactivateRecord (run H s' txs2) e'' rid =
       Inl (Revert ''HealthcareDB: Record does not exist or is inactive''))"
proof -
  let ?s = "run H (constructor d) txs1"
  note D = deactivateRecord_InrD[OF assms(2)]
  from assms(2) have s': "step H ?s (e, DeactivateRecord rid) = s'"
    by (simp add: step_def)
  from constructor_fresh_run[OF assms(1)] s' have fr: "fresh_run H s' txs2"
    by (simp add: fresh_run_append)
  have "inv_index ?s" by (rule run_inv_index[OF constructor_inv(1)])
  with D(2) have "rid \<in> set (allRecordIds ?s)" by (simp add: inv_index_def)
  with D(4) have issued: "rid \<in> set (allRecordIds s')" by simp
  from D(4) have dead: "\<not> isActive (records s' rid)" by simp
  from run_dead[OF issued dead fr] have later: "\<not> isActive (records (run H s' txs2) rid)" .
  from D(1,4) have "\<not> paused s'" by simp
  with dead later show ?thesis
    by (simp add: deactivateRecord_def hasAccess_def internal_hasAccess_def)
qed

theorem deactivateRecord_twice_witness:
  "inj_on example_hash (set (hashed example_hash (constructor 1)
     (example_txs @ (mk_env 2 105, DeactivateRecord 2) # example_later))) \<and>
   deactivateRecord (run example_hash (constructor 1) example_txs) (mk_env 2 105) 2 =
     Inr (step example_hash (run example_hash (constructor 1) example_txs)
            (mk_env 2 105, DeactivateRecord 2)) \<and>
   deactivateRecord (step example_hash (run example_hash (constructor 1) example_txs)
            (mk_env 2 105, DeactivateRecord 2)) (mk_env 1 106) 2 =
     Inl (Revert ''HealthcareDB: Record does not exist or is inactive'') \<and>
   \<not> hasAccess (run example_hash (step example_hash (run example_hash (constructor 1) example_txs)
            (mk_env 2 105, DeactivateRecord 2)) example_later) 2 2 \<and>
   deactivateRecord (run example_hash (step example_hash (run example_hash (constructor 1) example_txs)
            (mk_env 2 105, DeactivateRecord 2)) example_later) (mk_env 2 107) 2 =
     Inl (Revert ''HealthcareDB: Record does not exist or is inactive'')"
proof -
  have "\<not> isl (exec example_hash (run example_hash (constructor 1) example_txs)
      (mk_env 2 105) (DeactivateRecord 2))"
    by code_simp
  from exec_not_isl[OF this]
  have deact: "deactivateRecord (run example_hash (constructor 1) example_txs) (mk_env 2 105) 2 =
     Inr (step example_hash (run example_hash (constructor 1) example_txs)
            (mk_env 2 105, DeactivateRecord 2))"
    by simp
  have running: "\<not> paused (run example_hash (step example_hash
      (run example_hash (constructor 1) example_txs)
      (mk_env 2 105, DeactivateRecord 2)) example_later)"
    by code_simp
  from deactivateRecord_twice[OF example_later_inj deact,
      where e' = "mk_env 1 106" and org = 2 and e'' = "mk_env 2 107"]
    running deact example_later_inj
  show ?thesis by blast
qed

text \<open>
  C7. A successful \<open>createRecord\<close> leaves a state in which the caller has access to
  the record whose id the call returned.
\<close>

theorem createRecord_creator_hasAccess:
  assumes "createRecord H s e patient dataHash location = Inr (rid, s')"
  shows "hasAccess s' rid (msg_sender e)"
  using createRecord_InrD(6)[OF assms]
  by (simp add: hasAccess_def internal_hasAccess_def scan_access_snoc)

theorem createRecord_creator_hasAccess_witness:
  "createRecord example_hash (run example_hash (constructor 1) example_setup) (mk_env 2 101)
       9 ''H1'' ''ipfs://L1'' =
     Inr (1, step example_hash (run example_hash (constructor 1) example_setup)
               (mk_env 2 101, CreateRecord 9 ''H1'' ''ipfs://L1'')) \<and>
   hasAccess (step example_hash (run example_hash (constructor 1) example_setup)
               (mk_env 2 101, CreateRecord 9 ''H1'' ''ipfs://L1'')) 1 (msg_sender (mk_env 2 101))"
proof -
  have "\<not> isl (createRecord example_hash (run example_hash (constructor 1) example_setup)
      (mk_env 2 101) 9 ''H1'' ''ipfs://L1'')"
    by code_simp
  from createRecord_not_isl[OF this]
  have "createRecord example_hash (run example_hash (constructor 1) example_setup) (mk_env 2 101)
       9 ''H1'' ''ipfs://L1'' =
     Inr (example_hash (preimage_of (run example_hash (constructor 1) example_setup)
            (mk_env 2 101) 9),
          step example_hash (run example_hash (constructor 1) example_setup)
               (mk_env 2 101, CreateRecord 9 ''H1'' ''ipfs://L1''))" .
  moreover have "example_hash (preimage_of (run example_hash (constructor 1) example_setup)
            (mk_env 2 101) 9) = 1"
    by code_simp
  ultimately have made:
    "createRecord example_hash (run example_hash (constructor 1) example_setup) (mk_env 2 101)
       9 ''H1'' ''ipfs://L1'' =
     Inr (1, step example_hash (run example_hash (constructor 1) example_setup)
               (mk_env 2 101, CreateRecord 9 ''H1'' ''ipfs://L1''))"
    by simp
  from createRecord_creator_hasAccess[OF made] made show ?thesis
    by blast
qed

text \<open>
  C8 (amended). In a paused state every write operation is rejected and the storage
  stays as it was; so it is for every call of a function that carries
  \<open>whenNotPaused\<close>, which are the seven write operations and \<open>pause\<close>. The rejection
  is the one of \<open>whenNotPaused\<close> when the call passes the checks that stand before it
  in the modifier list: the role check of the operation, and for
  \<open>registerOrganization\<close> the check of the address; a call that fails one of these is
  rejected for that reason instead. \<open>deactivateRecord\<close> has no
  earlier check and is always rejected for the pause. The reads return what they return
  on the same storage unpaused. A call changes the pause flag only if it is \<open>pause\<close>
  or \<open>unpause\<close> and its sender holds the admin role.
\<close>

theorem paused_writes_rejected:
  assumes "paused s"
  shows "registerOrganization s e org = Inl
        (if \<not> hasRole s ADMIN_ROLE (msg_sender e)
         then AccessControlUnauthorizedAccount (msg_sender e) ADMIN_ROLE
         else if org = 0 then Revert ''HealthcareDB: Invalid address'' else EnforcedPause) \<and>
     batchRegisterOrganizations s e orgs = Inl
        (if \<not> hasRole s ADMIN_ROLE (msg_sender e)
         then AccessControlUnauthorizedAccount (msg_sender e) ADMIN_ROLE else EnforcedPause) \<and>
     createRecord H s e patient dataHash location = Inl
        (if \<not> hasRole s ORGANIZATION_ROLE (msg_sender e)
         then AccessControlUnauthorizedAccount (msg_sender e) ORGANIZATION_ROLE
         else EnforcedPause) \<and>
     grantAccess s e rid org = Inl
        (if \<not> hasRole s ORGANIZATION_ROLE (msg_sender e)
         then AccessControlUnauthorizedAccount (msg_sender e) ORGANIZATION_ROLE
         else EnforcedPause) \<and>
     revokeAccess s e rid org = Inl
        (if \<not> hasRole s ORGANIZATION_ROLE (msg_sender e)
         then AccessControlUnauthorizedAccount (msg_sender e) ORGANIZATION_ROLE
         else EnforcedPause) \<and>
     updateRecord s e rid dataHash location = Inl
        (if \<not> hasRole s ORGANIZATION_ROLE (msg_sender e)
         then AccessControlUnauthorizedAccount (msg_sender e) ORGANIZATION_ROLE
         else EnforcedPause) \<and>
     deactivateRecord s e rid = Inl EnforcedPause \<and>
     (pausable c \<longrightarrow> step H s (e, c) = s) \<and>
     getRecord (s\<lparr> paused := False \<rparr>) rid = getRecord s rid \<and>
     hasAccess (s\<lparr> paused := False \<rparr>) rid org = hasAccess s rid org \<and>
     getRecordAccess (s\<lparr> paused := False \<rparr>) rid = getRecordAccess s rid \<and>
     getPatientRecords (s\<lparr> paused := False \<rparr>) patient = getPatientRecords s patient \<and>
     getOrganizationRecords (s\<lparr> paused := False \<rparr>) org = getOrganizationRecords s org \<and>
     getPatientRecordCount (s\<lparr> paused := False \<rparr>) patient = getPatientRecordCount s patient \<and>
     getTotalRecordCount (s\<lparr> paused := False \<rparr>) = getTotalRecordCount s \<and>
     getOrganizationCount (s\<lparr> paused := False \<rparr>) = getOrganizationCount s \<and>
     getAllOrganizations (s\<lparr> paused := False \<rparr>) = getAllOrganizations s \<and>
     (paused (step H s0 (e, c)) \<noteq> paused s0 \<longrightarrow>
        hasRole s0 ADMIN_ROLE (msg_sender e) \<and> (c = Pause \<or> c = Unpause))"
proof -
  have writes:
    "registerOrganization s e org = Inl
        (if \<not> hasRole s ADMIN_ROLE (msg_sender e)
         then AccessControlUnauthorizedAccount (msg_sender e) ADMIN_ROLE
         else if org = 0 then Revert ''HealthcareDB: Invalid address'' else EnforcedPause)"
    "batchRegisterOrganizations s e orgs = Inl
        (if \<not> hasRole s ADMIN_ROLE (msg_sender e)
         then AccessControlUnauthorizedAccount (msg_sender e) ADMIN_ROLE else EnforcedPause)"
    "createRecord H s e patient dataHash location = Inl
        (if \<not> hasRole s ORGANIZATION_ROLE (msg_sender e)
         then AccessControlUnauthorizedAccount (msg_sender e) ORGANIZATION_ROLE
         else EnforcedPause)"
    "grantAccess s e rid org = Inl
        (if \<not> hasRole s ORGANIZATION_ROLE (msg_sender e)
         then AccessControlUnauthorizedAccount (msg_sender e) ORGANIZATION_ROLE
         else EnforcedPause)"
    "revokeAccess s e rid org = Inl
        (if \<not> hasRole s ORGANIZATION_ROLE (msg_sender e)
         then AccessControlUnauthorizedAccount (msg_sender e) ORGANIZATION_ROLE
         else EnforcedPause)"
    "updateRecord s e rid dataHash location = Inl
        (if \<not> hasRole s ORGANIZATION_ROLE (msg_sender e)
         then AccessControlUnauthorizedAccount (msg_sender e) ORGANIZATION_ROLE
         else EnforcedPause)"
    "deactivateRecord s e rid = Inl EnforcedPause"
    using assms
    by (simp_all add: registerOrganization_def batchRegisterOrganizations_def
        createRecord_def grantAccess_def revokeAccess_def updateRecord_def deactivateRecord_def)
  have reads:
    "getRecord (s\<lparr> paused := False \<rparr>) rid = getRecord s rid"
    "hasAccess (s\<lparr> paused := False \<rparr>) rid org = hasAccess s rid org"
    "getRecordAccess (s\<lparr> paused := False \<rparr>) rid = getRecordAccess s rid"
    "getPatientRecords (s\<lparr> paused := False \<rparr>) patient = getPatientRecords s patient"
    "getOrganizationRecords (s\<lparr> paused := False \<rparr>) org = getOrganizationRecords s org"
    "getPatientRecordCount (s\<lparr> paused := False \<rparr>) patient = getPatientRecordCount s patient"
    "getTotalRecordCount (s\<lparr> paused := False \<rparr>) = getTotalRecordCount s"
    "getOrganizationCount (s\<lparr> paused := False \<rparr>) = getOrganizationCount s"
    "getAllOrganizations (s\<lparr> paused := False \<rparr>) = getAllOrganizations s"
    by (simp_all add: getRecord_def hasAccess_def internal_hasAccess_def getRecordAccess_def
        getPatientRecords_def getOrganizationRecords_def getPatientRecordCount_def
        getTotalRecordCount_def getOrganizationCount_def getAllOrganizations_def)
  have still: "pausable c \<longrightarrow> step H s (e, c) = s"
    using paused_step[OF assms] by blast
  have toggle: "paused (step H s0 (e, c)) \<noteq> paused s0 \<longrightarrow>
        hasRole s0 ADMIN_ROLE (msg_sender e) \<and> (c = Pause \<or> c = Unpause)"
    using step_paused_change by blast
  from writes reads still toggle show ?thesis
    by (intro conjI)
qed

theorem paused_writes_rejected_witness:
  "paused (run example_hash (constructor 1) example_paused) \<and>
   createRecord example_hash (run example_hash (constructor 1) example_paused) (mk_env 2 106)
       9 ''H1'' ''ipfs://L1'' = Inl EnforcedPause \<and>
   registerOrganization (run example_hash (constructor 1) example_paused) (mk_env 1 106) 4 =
     Inl EnforcedPause \<and>
   deactivateRecord (run example_hash (constructor 1) example_paused) (mk_env 5 106) 1 =
     Inl EnforcedPause \<and>
   step example_hash (run example_hash (constructor 1) example_paused)
       (mk_env 2 106, CreateRecord 9 ''H1'' ''ipfs://L1'') =
     run example_hash (constructor 1) example_paused"
proof -
  have p: "paused (run example_hash (constructor 1) example_paused)"
    by code_simp
  have org: "hasRole (run example_hash (constructor 1) example_paused) ORGANIZATION_ROLE
      (msg_sender (mk_env 2 106))"
    by code_simp
  have admin: "hasRole (run example_hash (constructor 1) example_paused) ADMIN_ROLE
      (msg_sender (mk_env 1 106))"
    by code_simp
  note create_inst = paused_writes_rejected[OF p, where e = "mk_env 2 106" and H = example_hash
      and patient = 9 and dataHash = "''H1''" and location = "''ipfs://L1''"
      and c = "CreateRecord 9 ''H1'' ''ipfs://L1''"]
  note register_inst = paused_writes_rejected[OF p, where e = "mk_env 1 106" and org = 4]
  note deactivate_inst = paused_writes_rejected[OF p, where e = "mk_env 5 106" and rid = 1]
  have create: "createRecord example_hash (run example_hash (constructor 1) example_paused)
      (mk_env 2 106) 9 ''H1'' ''ipfs://L1'' = Inl EnforcedPause"
    using create_inst org by simp
  have still: "step example_hash (run example_hash (constructor 1) example_paused)
       (mk_env 2 106, CreateRecord 9 ''H1'' ''ipfs://L1'') =
     run example_hash (constructor 1) example_paused"
    using create_inst by simp
  have register: "registerOrganization (run example_hash (constructor 1) example_paused)
      (mk_env 1 106) 4 = Inl EnforcedPause"
    using register_inst admin by simp
  have deactivate: "deactivateRecord (run example_hash (constructor 1) example_paused)
      (mk_env 5 106) 1 = Inl EnforcedPause"
    using deactivate_inst by simp
  from p create register deactivate still show ?thesis
    by (intro conjI)
qed

text \<open>
  The claim as stated fails: in the paused state, \<open>createRecord\<close> by account 5, which
  is not a registered organization, is rejected by \<open>onlyRole\<close>, not for the pause.
\<close>

theorem paused_createRecord_unauthorized:
  "paused (run example_hash (constructor 1) example_paused) \<and>
   createRecord example_hash (run example_hash (constructor 1) example_paused) (mk_env 5 106)
       9 ''H1'' ''ipfs://L1'' = Inl (AccessControlUnauthorizedAccount 5 ORGANIZATION_ROLE) \<and>
   createRecord example_hash (run example_hash (constructor 1) example_paused) (mk_env 5 106)
       9 ''H1'' ''ipfs://L1'' \<noteq> Inl EnforcedPause"
proof -
  have p: "paused (run example_hash (constructor 1) example_paused)"
    by code_simp
  have norole: "\<not> hasRole (run example_hash (constructor 1) example_paused) ORGANIZATION_ROLE 5"
    by code_simp
  have "createRecord example_hash (run example_hash (constructor 1) example_paused) (mk_env 5 106)
       9 ''H1'' ''ipfs://L1'' = Inl (AccessControlUnauthorizedAccount 5 ORGANIZATION_ROLE)"
    using norole by (simp add: createRecord_def mk_env_def)
  with p show ?thesis by simp
qed

text \<open>
  C9. A successful \<open>updateRecord\<close> writes the new hash, the new location and the block
  timestamp as last update into the record; the other fields of the record, all other
  records, the grant lists, the cache, the indices, the roles and the pause flag stay
  as they were, and one \<open>RecordUpdated\<close> event is appended to the log.
\<close>

theorem updateRecord_frame:
  assumes "updateRecord s e rid dataHash location = Inr s'"
  shows "encryptedDataHash (records s' rid) = dataHash \<and>
     dataLocation (records s' rid) = location \<and>
     lastUpdated (records s' rid) = block_timestamp e \<and>
     recordId (records s' rid) = recordId (records s rid) \<and>
     patientAddress (records s' rid) = patientAddress (records s rid) \<and>
     createdBy (records s' rid) = createdBy (records s rid) \<and>
     timestamp (records s' rid) = timestamp (records s rid) \<and>
     isActive (records s' rid) = isActive (records s rid) \<and>
     (\<forall>r. r \<noteq> rid \<longrightarrow> records s' r = records s r) \<and>
     recordAccess s' = recordAccess s \<and>
     hasAccessCache s' = hasAccessCache s \<and>
     patientRecords s' = patientRecords s \<and>
     organizationRecords s' = organizationRecords s \<and>
     allRecordIds s' = allRecordIds s \<and>
     registeredOrganizations s' = registeredOrganizations s \<and>
     roles s' = roles s \<and>
     paused s' = paused s \<and>
     log s' = log s @ [RecordUpdated rid (msg_sender e) (block_timestamp e) dataHash location]"
  using updateRecord_InrD(5)[OF assms] by simp

theorem updateRecord_frame_witness:
  "updateRecord (run example_hash (constructor 1) example_txs) (mk_env 3 105) 1
       ''H2'' ''ipfs://L2'' =
     Inr (step example_hash (run example_hash (constructor 1) example_txs)
            (mk_env 3 105, UpdateRecord 1 ''H2'' ''ipfs://L2'')) \<and>
   encryptedDataHash (records (step example_hash (run example_hash (constructor 1) example_txs)
            (mk_env 3 105, UpdateRecord 1 ''H2'' ''ipfs://L2'')) 1) = ''H2'' \<and>
   dataLocation (records (step example_hash (run example_hash (constructor 1) example_txs)
            (mk_env 3 105, UpdateRecord 1 ''H2'' ''ipfs://L2'')) 1) = ''ipfs://L2'' \<and>
   patientAddress (records (step example_hash (run example_hash (constructor 1) example_txs)
            (mk_env 3 105, UpdateRecord 1 ''H2'' ''ipfs://L2'')) 1) =
     patientAddress (records (run example_hash (constructor 1) example_txs) 1) \<and>
   recordAccess (step example_hash (run example_hash (constructor 1) example_txs)
            (mk_env 3 105, UpdateRecord 1 ''H2'' ''ipfs://L2'')) =
     recordAccess (run example_hash (constructor 1) example_txs)"
proof -
  have "\<not> isl (exec example_hash (run example_hash (constructor 1) example_txs)
      (mk_env 3 105) (UpdateRecord 1 ''H2'' ''ipfs://L2''))"
    by code_simp
  from exec_not_isl[OF this]
  have updated: "updateRecord (run example_hash (constructor 1) example_txs) (mk_env 3 105) 1
       ''H2'' ''ipfs://L2'' =
     Inr (step example_hash (run example_hash (constructor 1) example_txs)
            (mk_env 3 105, UpdateRecord 1 ''H2'' ''ipfs://L2''))"
    by simp
  from updateRecord_frame[OF updated] updated show ?thesis
    by blast
qed

text \<open>
  C10. In every state reached from deployment by a run on whose hashed tuples the hash
  has no collision, the cached check \<open>_hasAccess\<close> and the check without cache (record
  activity, then the scan of the grant list) give the same answer for every record and
  organization.
\<close>

theorem cache_agrees_with_grants:
  assumes "inj_on H (set (hashed H (constructor d) txs))"
  shows "internal_hasAccess (run H (constructor d) txs) rid org =
     hasAccess_uncached (run H (constructor d) txs) rid org"
  using constructor_run_inv_grants[OF assms]
  by (simp add: inv_grants_def internal_hasAccess_def hasAccess_uncached_def)

theorem cache_agrees_with_grants_witness:
  "inj_on example_hash (set (hashed example_hash (constructor 1) example_txs)) \<and>
   internal_hasAccess (run example_hash (constructor 1) example_txs) 1 3 =
     hasAccess_uncached (run example_hash (constructor 1) example_txs) 1 3 \<and>
   hasAccess_uncached (run example_hash (constructor 1) example_txs) 1 3 \<and>
   internal_hasAccess (run example_hash (constructor 1) example_granted) 2 3 =
     hasAccess_uncached (run example_hash (constructor 1) example_granted) 2 3"
proof -
  have granted_hashed: "hashed example_hash (constructor 1) example_granted =
     [(9, 2, 101, 7, 3, 0), (9, 2, 101, 7, 3, 1)]"
    by code_simp
  have granted_inj: "inj_on example_hash (set (hashed example_hash (constructor 1) example_granted))"
    unfolding granted_hashed by (simp add: example_hash_def seq_no_def)
  have yes: "hasAccess_uncached (run example_hash (constructor 1) example_txs) 1 3"
    by code_simp
  from cache_agrees_with_grants[OF example_inj, where rid = 1 and org = 3]
    cache_agrees_with_grants[OF granted_inj, where rid = 2 and org = 3]
    yes example_inj
  show ?thesis by blast
qed

section \<open>The hypotheses on roles\<close>

text \<open>
  Access to a record and the organization role are independent once a role can be
  taken away: after the deployer has revoked the role of organization 3, the
  organization still has access to record 1, organization 2 can still revoke that
  access, and the grant that follows is rejected because the target is no registered
  organization. In the same way \<open>grantAccess\<close> is rejected by \<open>onlyRole\<close> for a
  caller that has access and no role. This is why the statement on revoking and
  granting again names both roles.
\<close>

lemma role_removed_regrant_rejected:
  "\<not> hasRole (run example_hash (constructor 1) example_role_removed) ORGANIZATION_ROLE 3 \<and>
   hasAccess (run example_hash (constructor 1) example_role_removed) 1 3 \<and>
   \<not> isl (revokeAccess (run example_hash (constructor 1) example_role_removed)
       (mk_env 2 104) 1 3) \<and>
   grantAccess (step example_hash (run example_hash (constructor 1) example_role_removed)
       (mk_env 2 104, RevokeAccess 1 3)) (mk_env 2 105) 1 3 =
     Inl (Revert ''HealthcareDB: Invalid organization'')"
proof -
  have removed:
    "\<not> hasRole (run example_hash (constructor 1) example_role_removed) ORGANIZATION_ROLE 3"
    by code_simp
  have access: "hasAccess (run example_hash (constructor 1) example_role_removed) 1 3"
    by code_simp
  have revoked: "\<not> isl (revokeAccess (run example_hash (constructor 1) example_role_removed)
       (mk_env 2 104) 1 3)"
    by code_simp
  have rejected: "isl (grantAccess (step example_hash
       (run example_hash (constructor 1) example_role_removed)
       (mk_env 2 104, RevokeAccess 1 3)) (mk_env 2 105) 1 3)"
    by code_simp
  have why: "projl (grantAccess (step example_hash
       (run example_hash (constructor 1) example_role_removed)
       (mk_env 2 104, RevokeAccess 1 3)) (mk_env 2 105) 1 3) =
     Revert ''HealthcareDB: Invalid organization''"
    by code_simp
  from rejected why have "grantAccess (step example_hash
       (run example_hash (constructor 1) example_role_removed)
       (mk_env 2 104, RevokeAccess 1 3)) (mk_env 2 105) 1 3 =
     Inl (Revert ''HealthcareDB: Invalid organization'')"
    by (metis sum.collapse(1))
  with removed access revoked show ?thesis
    by (intro conjI)
qed

section \<open>The hypothesis on the hash\<close>

text \<open>
  The check in \<open>createRecord\<close> rejects a new id only when the record stored under it
  is active. Were the hash to return the id of a deactivated record, the creation would
  go through: the id is issued a second time, the new creator's entry is appended to
  the old grant list, and a later revocation of the creator by organization 3 marks the
  older of its two unrevoked entries and clears the cache flag while the newer entry
  stays unrevoked. This is why the statements above on ids, grant lists and the cache
  are for runs without a collision of the hash.
\<close>

lemma collision_reuses_deactivated_id:
  "created colliding_hash (constructor 1) example_collision = [1, 1] \<and>
   getRecordAccess (run colliding_hash (constructor 1) example_collision) 1 = Inr [2, 3, 2] \<and>
   \<not> internal_hasAccess (run colliding_hash (constructor 1)
       (example_collision @ [(mk_env 3 105, RevokeAccess 1 2)])) 1 2 \<and>
   hasAccess_uncached (run colliding_hash (constructor 1)
       (example_collision @ [(mk_env 3 105, RevokeAccess 1 2)])) 1 2"
  by code_simp

end
